theory Spec2Isabelle
  imports Main "HOL-Library.Word"
begin

unbundle bit_operations_syntax

section \<open>Values, run-time failures and results\<close>

text \<open>
  A Go \<open>byte\<close> is an 8-bit word and a \<open>[]byte\<close> a list of them; the nil slice and the
  empty slice are both the empty list. A Go \<open>int\<close> that holds a length, an offset, a node
  index or a height is an \<open>int\<close>: every such value is bounded by the length of a slice
  that exists, so it never wraps. A run-time panic of Go (an index or a slice expression
  out of range, an explicit \<open>panic\<close>) is a value of \<open>panic\<close>; a loop that does not
  return is \<open>None\<close>. So a call that may panic has type \<open>panic + 'a\<close> and one that may
  also run forever has type \<open>(panic + 'a) option\<close>.
\<close>

type_synonym byte = "8 word"
type_synonym bytes = "byte list"

datatype panic = IndexOutOfRange | SliceOutOfRange | MakeSliceOutOfRange | Panic string

datatype error = ErrNotFound | ErrIterReleased | ErrBatchCorrupted string

definition bindE :: "panic + 'a \<Rightarrow> ('a \<Rightarrow> panic + 'b) \<Rightarrow> panic + 'b" where
  "bindE m f = (case m of Inl e \<Rightarrow> Inl e | Inr x \<Rightarrow> f x)"

definition bindR :: "(panic + 'a) option \<Rightarrow> ('a \<Rightarrow> (panic + 'b) option) \<Rightarrow> (panic + 'b) option" where
  "bindR m f = (case m of None \<Rightarrow> None | Some (Inl e) \<Rightarrow> Some (Inl e) | Some (Inr x) \<Rightarrow> f x)"

text \<open>\<open>xs[i]\<close> read and written, and \<open>xs[lo:hi]\<close>. Go lets \<open>hi\<close> of a slice expression run
  up to the capacity and then shows bytes of the backing array past the length; here that
  read is a failure as well, so a call that does not fail here does not fail in Go and
  returns the same bytes.\<close>

definition ixg :: "'a list \<Rightarrow> int \<Rightarrow> panic + 'a" where
  "ixg xs i = (if 0 \<le> i \<and> i < int (length xs) then Inr (xs ! nat i) else Inl IndexOutOfRange)"

definition upd :: "'a list \<Rightarrow> int \<Rightarrow> 'a \<Rightarrow> panic + 'a list" where
  "upd xs i v = (if 0 \<le> i \<and> i < int (length xs) then Inr (xs[nat i := v]) else Inl IndexOutOfRange)"

definition slice :: "'a list \<Rightarrow> int \<Rightarrow> int \<Rightarrow> panic + 'a list" where
  "slice xs lo hi =
     (if 0 \<le> lo \<and> lo \<le> hi \<and> hi \<le> int (length xs)
      then Inr (take (nat (hi - lo)) (drop (nat lo) xs)) else Inl SliceOutOfRange)"

section \<open>The skip list store (memdb)\<close>

text \<open>The layout constants of a node and the height limit, as the package declares them
  (\<open>const tMaxHeight = 12\<close>; \<open>nKV, nKey, nVal, nHeight, nNext = iota\<close>).\<close>

definition tMaxHeight :: int where "tMaxHeight = 12"
definition nKV :: int where "nKV = 0"
definition nKey :: int where "nKey = 1"
definition nVal :: int where "nVal = 2"
definition nHeight :: int where "nHeight = 3"
definition nNext :: int where "nNext = 4"

lemmas layout_defs = tMaxHeight_def nKV_def nKey_def nVal_def nHeight_def nNext_def

text \<open>
  The store \<open>DB_\<close>. The comparer is the field \<open>db_cmp\<close>. The generator \<open>rnd\<close> is
  \<open>rand.New(rand.NewSource(0xdeadbeef))\<close>: \<open>rndSrc\<close> is the sequence of values its
  \<open>Int()\<close> yields (any sequence: the store must work for each) and \<open>rndPos\<close> how many were
  drawn. \<open>kvCap\<close> is \<open>cap(kvData)\<close>, and \<open>growCap c l\<close> is the capacity the run time gives a
  slice of capacity \<open>c\<close> that \<open>append\<close> must grow to length \<open>l\<close>. \<open>db_n\<close> is the field
  \<open>n\<close>. The lock \<open>mu\<close> has no part in a single-threaded run.
\<close>

record DB =
  db_cmp :: "bytes \<Rightarrow> bytes \<Rightarrow> int"
  rndSrc :: "nat \<Rightarrow> int"
  rndPos :: nat
  growCap :: "int \<Rightarrow> int \<Rightarrow> int"
  kvData :: bytes
  kvCap :: int
  nodeData :: "int list"
  prevNode :: "int list"
  maxHeight :: int
  db_n :: int
  kvSize :: int

definition kv_append :: "DB \<Rightarrow> bytes \<Rightarrow> DB" where
  "kv_append p xs =
     p\<lparr>kvData := kvData p @ xs,
       kvCap := (if int (length (kvData p @ xs)) \<le> kvCap p then kvCap p
                 else growCap p (kvCap p) (int (length (kvData p @ xs))))\<rparr>"

text \<open>\<open>randHeight\<close>: \<open>h = 1; for h < tMaxHeight && p.rnd.Int()%branching == 0 { h++ }\<close>.
  The generator is not asked once \<open>h\<close> has reached the limit.\<close>

function randHeight_loop :: "(nat \<Rightarrow> int) \<Rightarrow> nat \<Rightarrow> int \<Rightarrow> int \<times> nat" where
  "randHeight_loop src pos h =
     (if h < tMaxHeight
      then (if src pos mod 4 = 0 then randHeight_loop src (pos + 1) (h + 1) else (h, pos + 1))
      else (h, pos))"
  by pat_completeness auto
termination
  by (relation "measure (\<lambda>(src, pos, h). nat (tMaxHeight - h))") auto

definition randHeight :: "DB \<Rightarrow> int \<times> DB" where
  "randHeight p = (case randHeight_loop (rndSrc p) (rndPos p) 1 of (h, pos) \<Rightarrow> (h, p\<lparr>rndPos := pos\<rparr>))"

lemma bindR_mono [partial_function_mono]:
  assumes mf: "mono_option B" and mg: "\<And>y. mono_option (\<lambda>f. C y f)"
  shows "mono_option (\<lambda>f. bindR (B f) (\<lambda>y. C y f))"
proof -
  have eq: "\<And>m g. bindR m g = Option.bind m (\<lambda>r. case r of Inl e \<Rightarrow> Some (Inl e) | Inr x \<Rightarrow> g x)"
    by (auto simp: bindR_def split: option.splits sum.splits)
  have "mono_option (\<lambda>f. case y of Inl e \<Rightarrow> Some (Inl e) | Inr x \<Rightarrow> C x f)" for y
    by (cases y) (simp_all add: mg option.const_mono)
  then show ?thesis
    unfolding eq
    by (intro bind_mono mf)
qed

lemma bindE_simps [simp]: "bindE (Inl e) f = Inl e" "bindE (Inr x) f = f x"
  by (simp_all add: bindE_def)

lemma bindR_simps [simp]: "bindR None g = None" "bindR (Some (Inl e)) g = Some (Inl e)" "bindR (Some (Inr x)) g = g x"
  by (simp_all add: bindR_def)

text \<open>\<open>findGE\<close>: the key of node \<open>next\<close> is \<open>kvData[o : o + nodeData[next+nKey]]\<close> with
  \<open>o = nodeData[next]\<close>; with \<open>prev\<close> the scratch array \<open>prevNode\<close> of the store is written.\<close>

definition nodeKey :: "DB \<Rightarrow> int \<Rightarrow> panic + bytes" where
  "nodeKey p node =
     bindE (ixg (nodeData p) node) (\<lambda>o1.
     bindE (ixg (nodeData p) (node + nKey)) (\<lambda>kl.
     slice (kvData p) o1 (o1 + kl)))"

partial_function (option) findGE_loop ::
  "DB \<Rightarrow> bytes \<Rightarrow> bool \<Rightarrow> int \<Rightarrow> int \<Rightarrow> (panic + (int \<times> bool) \<times> DB) option" where
  "findGE_loop p key prev node h =
     bindR (Some (ixg (nodeData p) (node + nNext + h))) (\<lambda>next.
     bindR (Some (if next \<noteq> 0 then bindE (nodeKey p next) (\<lambda>k. Inr (db_cmp p k key)) else Inr 1)) (\<lambda>c.
       if c < 0 then findGE_loop p key prev next h
       else
         bindR (Some (if prev then bindE (upd (prevNode p) h node) (\<lambda>pn. Inr (p\<lparr>prevNode := pn\<rparr>))
                      else Inr p)) (\<lambda>p'.
           if \<not> prev \<and> c = 0 then Some (Inr ((next, True), p'))
           else if h = 0 then Some (Inr ((next, c = 0), p'))
           else findGE_loop p' key prev node (h - 1))))"

declare findGE_loop.simps [code]

definition findGE :: "DB \<Rightarrow> bytes \<Rightarrow> bool \<Rightarrow> (panic + (int \<times> bool) \<times> DB) option" where
  "findGE p key prev = findGE_loop p key prev 0 (maxHeight p - 1)"

text \<open>\<open>Put\<close>. The two loops of the insertion are \<open>raise_prev\<close>
  (\<open>for i := p.maxHeight; i < h; i++ { p.prevNode[i] = 0 }\<close>) and \<open>put_links\<close>
  (\<open>for i, n := range p.prevNode[:h]\<close>, which appends the old successor to the new node
  and makes the new node the successor of \<open>n\<close> at level \<open>i\<close>).\<close>

function raise_prev :: "int list \<Rightarrow> int \<Rightarrow> int \<Rightarrow> panic + int list" where
  "raise_prev pn i h =
     (if i < h then bindE (upd pn i 0) (\<lambda>pn'. raise_prev pn' (i + 1) h) else Inr pn)"
  by pat_completeness auto
termination
  by (relation "measure (\<lambda>(pn, i, h). nat (h - i))") auto

fun put_links :: "int list \<Rightarrow> int \<Rightarrow> int \<Rightarrow> int list \<Rightarrow> panic + int list" where
  "put_links nd node i [] = Inr nd"
| "put_links nd node i (n # ns) =
     bindE (ixg nd (n + nNext + i)) (\<lambda>x.
     bindE (upd (nd @ [x]) (n + nNext + i) node) (\<lambda>nd'.
     put_links nd' node (i + 1) ns))"

definition put_exact :: "DB \<Rightarrow> int \<Rightarrow> bytes \<Rightarrow> bytes \<Rightarrow> panic + DB" where
  "put_exact p node key val =
     (let kvOffset = int (length (kvData p));
          p1 = kv_append (kv_append p key) val
      in bindE (upd (nodeData p1) node kvOffset) (\<lambda>nd1.
         bindE (ixg nd1 (node + nVal)) (\<lambda>m.
         bindE (upd nd1 (node + nVal) (int (length val))) (\<lambda>nd2.
         Inr (p1\<lparr>nodeData := nd2, kvSize := kvSize p1 + (int (length val) - m)\<rparr>)))))"

definition put_new :: "DB \<Rightarrow> bytes \<Rightarrow> bytes \<Rightarrow> panic + DB" where
  "put_new p0 key val =
     (case randHeight p0 of (h, p) \<Rightarrow>
      bindE (if h > maxHeight p
             then bindE (raise_prev (prevNode p) (maxHeight p) h)
                    (\<lambda>pn. Inr (p\<lparr>prevNode := pn, maxHeight := h\<rparr>))
             else Inr p) (\<lambda>p1.
      let kvOffset = int (length (kvData p1));
          p2 = kv_append (kv_append p1 key) val;
          node = int (length (nodeData p2));
          nd = nodeData p2 @ [kvOffset, int (length key), int (length val), h]
      in bindE (slice (prevNode p2) 0 h) (\<lambda>prevs.
         bindE (put_links nd node 0 prevs) (\<lambda>nd'.
         Inr (p2\<lparr>nodeData := nd',
                 kvSize := kvSize p2 + (int (length key) + int (length val)),
                 db_n := db_n p2 + 1\<rparr>)))))"

definition Put :: "DB \<Rightarrow> bytes \<Rightarrow> bytes \<Rightarrow> (panic + DB) option" where
  "Put p0 key val =
     bindR (findGE p0 key True) (\<lambda>((node, exact), p).
       if exact then Some (put_exact p node key val) else Some (put_new p key val))"

text \<open>\<open>Delete\<close> returns the error (\<open>None\<close> for \<open>nil\<close>) and the store.\<close>

fun del_links :: "int list \<Rightarrow> int \<Rightarrow> int list \<Rightarrow> panic + int list" where
  "del_links nd i [] = Inr nd"
| "del_links nd i (n # ns) =
     bindE (ixg nd (n + nNext + i)) (\<lambda>x.
     bindE (ixg nd (x + nNext + i)) (\<lambda>y.
     bindE (upd nd (n + nNext + i) y) (\<lambda>nd'.
     del_links nd' (i + 1) ns)))"

definition Delete :: "DB \<Rightarrow> bytes \<Rightarrow> (panic + error option \<times> DB) option" where
  "Delete p0 key =
     bindR (findGE p0 key True) (\<lambda>((node, exact), p).
       if \<not> exact then Some (Inr (Some ErrNotFound, p))
       else Some (
         bindE (ixg (nodeData p) (node + nHeight)) (\<lambda>h.
         bindE (slice (prevNode p) 0 h) (\<lambda>prevs.
         bindE (del_links (nodeData p) 0 prevs) (\<lambda>nd.
         bindE (ixg nd (node + nKey)) (\<lambda>kl.
         bindE (ixg nd (node + nVal)) (\<lambda>vl.
         Inr (None, p\<lparr>nodeData := nd, kvSize := kvSize p - (kl + vl), db_n := db_n p - 1\<rparr>))))))))"

definition Contains :: "DB \<Rightarrow> bytes \<Rightarrow> (panic + bool) option" where
  "Contains p key = bindR (findGE p key False) (\<lambda>((node, exact), p'). Some (Inr exact))"

text \<open>\<open>Get\<close> and \<open>Find\<close> return their results with the error (\<open>None\<close> for \<open>nil\<close>).\<close>

definition Get :: "DB \<Rightarrow> bytes \<Rightarrow> (panic + bytes \<times> error option) option" where
  "Get p key =
     bindR (findGE p key False) (\<lambda>((node, exact), p').
       if exact then Some (
         bindE (ixg (nodeData p) node) (\<lambda>o1.
         bindE (ixg (nodeData p) (node + nKey)) (\<lambda>kl.
         bindE (ixg (nodeData p) (node + nVal)) (\<lambda>vl.
         bindE (slice (kvData p) (o1 + kl) (o1 + kl + vl)) (\<lambda>v.
         Inr (v, None))))))
       else Some (Inr ([], Some ErrNotFound)))"

definition Find :: "DB \<Rightarrow> bytes \<Rightarrow> (panic + (bytes \<times> bytes) \<times> error option) option" where
  "Find p key =
     bindR (findGE p key False) (\<lambda>((node, exact), p').
       if node \<noteq> 0 then Some (
         bindE (ixg (nodeData p) node) (\<lambda>n.
         bindE (ixg (nodeData p) (node + nKey)) (\<lambda>kl.
         bindE (slice (kvData p) n (n + kl)) (\<lambda>rkey.
         bindE (ixg (nodeData p) (node + nVal)) (\<lambda>vl.
         bindE (slice (kvData p) (n + kl) (n + kl + vl)) (\<lambda>v.
         Inr ((rkey, v), None)))))))
       else Some (Inr (([], []), Some ErrNotFound)))"

definition Capacity :: "DB \<Rightarrow> int" where "Capacity p = kvCap p"
definition Size :: "DB \<Rightarrow> int" where "Size p = kvSize p"
definition Free :: "DB \<Rightarrow> int" where "Free p = kvCap p - int (length (kvData p))"
definition Len :: "DB \<Rightarrow> int" where "Len p = db_n p"

text \<open>\<open>Reset\<close>; its loop \<open>for n := 0; n < tMaxHeight; n++\<close> clears the links of the head
  and the scratch array.\<close>

function reset_loop :: "int list \<Rightarrow> int list \<Rightarrow> int \<Rightarrow> panic + int list \<times> int list" where
  "reset_loop nd pn n =
     (if n < tMaxHeight
      then bindE (upd nd (nNext + n) 0) (\<lambda>nd'.
           bindE (upd pn n 0) (\<lambda>pn'. reset_loop nd' pn' (n + 1)))
      else Inr (nd, pn))"
  by pat_completeness auto
termination
  by (relation "measure (\<lambda>(nd, pn, n). nat (tMaxHeight - n))") auto

definition Reset :: "DB \<Rightarrow> panic + DB" where
  "Reset p =
     bindE (slice (nodeData p) 0 (nNext + tMaxHeight)) (\<lambda>nd0.
     bindE (upd nd0 nKV 0) (\<lambda>nd1.
     bindE (upd nd1 nKey 0) (\<lambda>nd2.
     bindE (upd nd2 nVal 0) (\<lambda>nd3.
     bindE (upd nd3 nHeight tMaxHeight) (\<lambda>nd4.
     bindE (reset_loop nd4 (prevNode p) 0) (\<lambda>(nd5, pn).
     Inr (p\<lparr>rndPos := 0, maxHeight := 1, db_n := 0, kvSize := 0, kvData := [],
            nodeData := nd5, prevNode := pn\<rparr>)))))))"

text \<open>\<open>New_\<close>: \<open>make([]byte, 0, capacity)\<close> panics on a negative capacity;
  \<open>make([]int, 4+tMaxHeight)\<close> and the array \<open>prevNode\<close> start zeroed.\<close>

definition New_DB :: "(nat \<Rightarrow> int) \<Rightarrow> (int \<Rightarrow> int \<Rightarrow> int) \<Rightarrow> (bytes \<Rightarrow> bytes \<Rightarrow> int) \<Rightarrow> int \<Rightarrow> panic + DB" where
  "New_DB src grow c capacity =
     (if capacity < 0 then Inl MakeSliceOutOfRange
      else bindE (upd (replicate (nat (4 + tMaxHeight)) 0) nHeight tMaxHeight) (\<lambda>nd.
           Inr \<lparr>db_cmp = c, rndSrc = src, rndPos = 0, growCap = grow, kvData = [],
                kvCap = capacity, nodeData = nd, prevNode = replicate (nat tMaxHeight) 0,
                maxHeight = 1, db_n = 0, kvSize = 0\<rparr>))"

subsection \<open>The iterator\<close>

text \<open>\<open>util.Range\<close> with its two optional bounds (\<open>None\<close> is \<open>nil\<close>), and \<open>dbIter_\<close>. The
  store the iterator points to is passed to each call; \<open>it_released\<close> is what
  \<open>Released()\<close> of the embedded \<open>BasicReleaser\<close> answers.\<close>

record Range =
  Start :: "bytes option"
  Limit :: "bytes option"

record dbIter =
  it_slice :: "Range option"
  it_node :: int
  it_forward :: bool
  it_key :: bytes
  it_val :: bytes
  it_err :: "error option"
  it_released :: bool

definition NewIterator :: "Range option \<Rightarrow> dbIter" where
  "NewIterator sl = \<lparr>it_slice = sl, it_node = 0, it_forward = False, it_key = [], it_val = [],
                     it_err = None, it_released = False\<rparr>"

definition out_of_range :: "DB \<Rightarrow> dbIter \<Rightarrow> bool \<Rightarrow> bool \<Rightarrow> bytes \<Rightarrow> bool" where
  "out_of_range p i checkStart checkLimit k =
     (case it_slice i of None \<Rightarrow> False
      | Some r \<Rightarrow>
          (checkLimit \<and> (case Limit r of None \<Rightarrow> False | Some l \<Rightarrow> db_cmp p k l \<ge> 0))
          \<or> (checkStart \<and> (case Start r of None \<Rightarrow> False | Some s \<Rightarrow> db_cmp p k s < 0)))"

definition fill :: "DB \<Rightarrow> dbIter \<Rightarrow> bool \<Rightarrow> bool \<Rightarrow> panic + bool \<times> dbIter" where
  "fill p i checkStart checkLimit =
     (if it_node i \<noteq> 0 then
        bindE (ixg (nodeData p) (it_node i)) (\<lambda>n.
        bindE (ixg (nodeData p) (it_node i + nKey)) (\<lambda>kl.
        bindE (slice (kvData p) n (n + kl)) (\<lambda>k.
        if out_of_range p i checkStart checkLimit k
        then Inr (False, i\<lparr>it_node := 0, it_key := [], it_val := []\<rparr>)
        else bindE (ixg (nodeData p) (it_node i + nVal)) (\<lambda>vl.
             bindE (slice (kvData p) (n + kl) (n + kl + vl)) (\<lambda>v.
             Inr (True, i\<lparr>it_key := k, it_val := v\<rparr>))))))
      else Inr (False, i\<lparr>it_key := [], it_val := []\<rparr>))"

definition Valid :: "dbIter \<Rightarrow> bool" where
  "Valid i = (it_node i \<noteq> 0)"

definition First :: "DB \<Rightarrow> dbIter \<Rightarrow> (panic + bool \<times> dbIter) option" where
  "First p i =
     (if it_released i then Some (Inr (False, i\<lparr>it_err := Some ErrIterReleased\<rparr>))
      else
        bindR (case it_slice i of
                 None \<Rightarrow> Some (ixg (nodeData p) nNext)
               | Some r \<Rightarrow>
                   (case Start r of
                      None \<Rightarrow> Some (ixg (nodeData p) nNext)
                    | Some s \<Rightarrow> bindR (findGE p s False) (\<lambda>((node, exact), p'). Some (Inr node))))
          (\<lambda>node. Some (fill p (i\<lparr>it_forward := True, it_node := node\<rparr>) False True)))"

definition Seek :: "DB \<Rightarrow> dbIter \<Rightarrow> bytes \<Rightarrow> (panic + bool \<times> dbIter) option" where
  "Seek p i key =
     (if it_released i then Some (Inr (False, i\<lparr>it_err := Some ErrIterReleased\<rparr>))
      else
        (let key' = (case it_slice i of None \<Rightarrow> key
                     | Some r \<Rightarrow> (case Start r of None \<Rightarrow> key
                                  | Some s \<Rightarrow> if db_cmp p key s < 0 then s else key))
         in bindR (findGE p key' False) (\<lambda>((node, exact), p').
              Some (fill p (i\<lparr>it_forward := True, it_node := node\<rparr>) False True))))"

definition Next :: "DB \<Rightarrow> dbIter \<Rightarrow> (panic + bool \<times> dbIter) option" where
  "Next p i =
     (if it_released i then Some (Inr (False, i\<lparr>it_err := Some ErrIterReleased\<rparr>))
      else if it_node i = 0 then (if \<not> it_forward i then First p i else Some (Inr (False, i)))
      else Some (
        bindE (ixg (nodeData p) (it_node i + nNext)) (\<lambda>node.
        fill p (i\<lparr>it_forward := True, it_node := node\<rparr>) False True)))"

definition Key :: "dbIter \<Rightarrow> bytes" where "Key i = it_key i"
definition Value :: "dbIter \<Rightarrow> bytes" where "Value i = it_val i"

text \<open>A full forward iteration, as a caller writes it:
  \<open>for ok := it.First(); ok; ok = it.Next() { out = append(out, (it.Key(), it.Value())) }\<close>.\<close>

partial_function (option) iter_collect ::
  "DB \<Rightarrow> dbIter \<Rightarrow> bool \<Rightarrow> (bytes \<times> bytes) list \<Rightarrow> (panic + (bytes \<times> bytes) list) option" where
  "iter_collect p i ok acc =
     (if ok then bindR (Next p i) (\<lambda>(ok', i'). iter_collect p i' ok' (acc @ [(Key i, Value i)]))
      else Some (Inr acc))"

declare iter_collect.simps [code]

definition forward_iteration :: "DB \<Rightarrow> (panic + (bytes \<times> bytes) list) option" where
  "forward_iteration p =
     bindR (First p (NewIterator None)) (\<lambda>(ok, i). iter_collect p i ok [])"

subsection \<open>A comparer\<close>

text \<open>The comparer is a parameter of the store. \<open>bytes_compare\<close> is the byte-wise
  lexicographic \<open>bytes.Compare\<close> of Go's library, the order of the default comparer.\<close>

fun bytes_compare :: "bytes \<Rightarrow> bytes \<Rightarrow> int" where
  "bytes_compare [] [] = 0"
| "bytes_compare [] (y # ys) = - 1"
| "bytes_compare (x # xs) [] = 1"
| "bytes_compare (x # xs) (y # ys) =
     (if x < y then - 1 else if y < x then 1 else bytes_compare xs ys)"

section \<open>The write batch\<close>

text \<open>
  Go's \<open>int\<close> and \<open>uint64\<close> are 64 bits wide (a 64-bit platform). In the decoder a
  length read from the buffer is converted with \<open>int(x)\<close> and added to an offset: both
  are written with their wrap-around, \<open>sint x\<close> and \<open>int64\<close>. The other sums of the
  decoder are an offset below the length of the buffer plus at most 10.
\<close>

definition int64 :: "int \<Rightarrow> int" where
  "int64 v = sint (word_of_int v :: 64 word)"

text \<open>\<open>binary.Uvarint\<close> of Go's library, from its documentation and source: seven bits a
  byte, the low ones first, the top bit set on every byte but the last; \<open>(0, 0)\<close> when
  the buffer ends early and \<open>(0, -(i+1))\<close> when the value overflows 64 bits.\<close>

fun Uvarint_loop :: "bytes \<Rightarrow> 64 word \<Rightarrow> nat \<Rightarrow> int \<Rightarrow> 64 word \<times> int" where
  "Uvarint_loop [] x s i = (0, 0)"
| "Uvarint_loop (b # bs) x s i =
     (if i = 10 then (0, - (i + 1))
      else if b < 0x80 then
        (if i = 9 \<and> b > 1 then (0, - (i + 1)) else (x OR push_bit s (ucast b), i + 1))
      else Uvarint_loop bs (x OR push_bit s (ucast (b AND 0x7f))) (s + 7) (i + 1))"

definition Uvarint :: "bytes \<Rightarrow> 64 word \<times> int" where
  "Uvarint buf = Uvarint_loop buf 0 0 0"

text \<open>\<open>fmt.Sprintf\<close> with \<open>%#x\<close> (lower-case hexadecimal after \<open>0x\<close>) and with \<open>%d\<close>.\<close>

definition digit_char :: "nat \<Rightarrow> char" where
  "digit_char d = ''0123456789abcdef'' ! d"

fun digits :: "nat \<Rightarrow> nat \<Rightarrow> string" where
  "digits base v =
     (if base < 2 \<or> v < base then [digit_char v]
      else digits base (v div base) @ [digit_char (v mod base)])"

definition fmt_hex :: "nat \<Rightarrow> string" where
  "fmt_hex v = ''0x'' @ digits 16 v"

definition fmt_dec :: "int \<Rightarrow> string" where
  "fmt_dec v = (if v < 0 then ''-'' @ digits 10 (nat (- v)) else digits 10 (nat v))"

text \<open>Modelled from the spec: the type \<open>keyType\<close> and its two tags are declared outside
  the file; the wire format gives them, \<open>0x00\<close> for a delete and \<open>0x01\<close> for a put, and
  the code converts a tag from and to a byte, so it is an unsigned integer.\<close>

type_synonym keyType = "64 word"

definition keyTypeDel :: keyType where "keyTypeDel = 0"
definition keyTypeVal :: keyType where "keyTypeVal = 1"

record batchIndex =
  keyType :: keyType
  keyPos :: int
  keyLen :: int
  valuePos :: int
  valueLen :: int

text \<open>\<open>newErrBatchCorrupted(reason)\<close> wraps the reason in the corruption error.\<close>

definition newErrBatchCorrupted :: "string \<Rightarrow> error" where
  "newErrBatchCorrupted reason = ErrBatchCorrupted reason"

text \<open>\<open>decodeBatch\<close>. One pass of its loop reads one record at offset \<open>o\<close>:
  \<open>decode_record\<close> returns the reason of a corruption or the index of the record and
  the offset after it. The callback \<open>fn\<close> is a closure that changes variables it
  captured: here it takes their state and returns it with its error, and like every
  call it may panic or not return.\<close>

definition decode_record :: "bytes \<Rightarrow> int \<Rightarrow> panic + (string + batchIndex \<times> int)" where
  "decode_record data o0 =
     bindE (ixg data o0) (\<lambda>t.
       let kt = (ucast t :: keyType) in
       if kt > keyTypeVal
       then Inr (Inl (''bad record: invalid type '' @ fmt_hex (unat kt)))
       else
         let o1 = o0 + 1 in
         bindE (slice data o1 (int (length data))) (\<lambda>buf.
         case Uvarint buf of (x, n) \<Rightarrow>
           let o2 = o1 + n in
           if n \<le> 0 \<or> int64 (o2 + sint x) > int (length data)
           then Inr (Inl ''bad record: invalid key length'')
           else
             let o3 = int64 (o2 + sint x) in
             if kt = keyTypeVal then
               bindE (slice data o3 (int (length data))) (\<lambda>buf'.
               case Uvarint buf' of (x', n') \<Rightarrow>
                 let o4 = o3 + n' in
                 if n' \<le> 0 \<or> int64 (o4 + sint x') > int (length data)
                 then Inr (Inl ''bad record: invalid value length'')
                 else Inr (Inr (\<lparr>keyType = kt, keyPos = o2, keyLen = sint x,
                                  valuePos = o4, valueLen = sint x'\<rparr>,
                                int64 (o4 + sint x'))))
             else Inr (Inr (\<lparr>keyType = kt, keyPos = o2, keyLen = sint x,
                              valuePos = 0, valueLen = 0\<rparr>, o3))))"

partial_function (option) decodeBatch_loop ::
  "bytes \<Rightarrow> (int \<Rightarrow> batchIndex \<Rightarrow> 's \<Rightarrow> (panic + error option \<times> 's) option) \<Rightarrow> int \<Rightarrow> int \<Rightarrow> 's
     \<Rightarrow> (panic + error option \<times> 's) option" where
  "decodeBatch_loop data fn i o0 s =
     (if o0 < int (length data) then
        bindR (Some (decode_record data o0)) (\<lambda>r.
          case r of
            Inl reason \<Rightarrow> Some (Inr (Some (newErrBatchCorrupted reason), s))
          | Inr (index, o') \<Rightarrow>
              bindR (fn i index s) (\<lambda>(err, s').
                case err of
                  Some e \<Rightarrow> Some (Inr (Some e, s'))
                | None \<Rightarrow> decodeBatch_loop data fn (i + 1) o' s'))
      else Some (Inr (None, s)))"

declare decodeBatch_loop.simps [code]

definition decodeBatch ::
  "bytes \<Rightarrow> (int \<Rightarrow> batchIndex \<Rightarrow> 's \<Rightarrow> (panic + error option \<times> 's) option) \<Rightarrow> 's
     \<Rightarrow> (panic + error option \<times> 's) option" where
  "decodeBatch data fn s = decodeBatch_loop data fn 0 0 s"

text \<open>\<open>decodeBatchHeader\<close>, with \<open>binary.LittleEndian.Uint64\<close> and \<open>Uint32\<close>.\<close>

definition batchHeaderLen :: int where "batchHeaderLen = 8 + 4"

definition le_uint64 :: "bytes \<Rightarrow> 64 word" where
  "le_uint64 bs = word_rcat (rev (take 8 bs))"

definition le_uint32 :: "bytes \<Rightarrow> 32 word" where
  "le_uint32 bs = word_rcat (rev (take 4 bs))"

definition decodeBatchHeader :: "bytes \<Rightarrow> 64 word \<times> int \<times> error option" where
  "decodeBatchHeader data =
     (if int (length data) < batchHeaderLen then (0, 0, Some (newErrBatchCorrupted ''too short''))
      else
        (let seq = le_uint64 data;
             batchLen = uint (le_uint32 (drop 8 data))
         in if batchLen < 0 then (0, 0, Some (newErrBatchCorrupted ''invalid records length''))
            else (seq, batchLen, None)))"

text \<open>
  The batch. \<open>b_data\<close>, \<open>b_index\<close> are the fields \<open>data\<close> and \<open>index\<close>; \<open>b_spare\<close> is
  the part of the backing array of \<open>data\<close> between its length and its capacity, which
  \<open>appendRec\<close> writes into. A byte slice handed over with its capacity is a pair of the
  same kind.
\<close>

record Batch =
  b_data :: bytes
  b_spare :: bytes
  b_index :: "batchIndex list"
  internalLen :: int

definition decode_fn :: "int \<Rightarrow> batchIndex \<Rightarrow> Batch \<Rightarrow> (panic + error option \<times> Batch) option" where
  "decode_fn i index b =
     Some (Inr (None, b\<lparr>b_index := b_index b @ [index],
               internalLen := int64 (internalLen b + keyLen index + valueLen index + 8)\<rparr>))"

definition decode :: "Batch \<Rightarrow> bytes \<times> bytes \<Rightarrow> int \<Rightarrow> (panic + error option \<times> Batch) option" where
  "decode b d expectedLen =
     bindR (decodeBatch (fst d) decode_fn
              (b\<lparr>b_data := fst d, b_spare := snd d, b_index := [], internalLen := 0\<rparr>))
       (\<lambda>(err, b').
          if err \<noteq> None then Some (Inr (err, b'))
          else if expectedLen \<ge> 0 \<and> int (length (b_index b')) \<noteq> expectedLen
          then Some (Inr (Some (newErrBatchCorrupted
                  (''invalid records length: '' @ fmt_dec expectedLen @ '' vs ''
                     @ fmt_dec (int (length (b_index b'))))), b'))
          else Some (Inr (None, b')))"

definition Load :: "Batch \<Rightarrow> bytes \<times> bytes \<Rightarrow> (panic + error option \<times> Batch) option" where
  "Load b d = decode b d (- 1)"

definition Dump :: "Batch \<Rightarrow> bytes \<times> bytes" where
  "Dump b = (b_data b, b_spare b)"

definition Batch_Len :: "Batch \<Rightarrow> int" where
  "Batch_Len b = int (length (b_index b))"

text \<open>\<open>newBatch\<close>: the empty batch \<open>&Batch{}\<close>.\<close>

definition newBatch :: Batch where
  "newBatch = \<lparr>b_data = [], b_spare = [], b_index = [], internalLen = 0\<rparr>"

subsection \<open>Applying a batch to a store\<close>

text \<open>\<open>index.k(data)\<close> and \<open>index.v(data)\<close>: the key and the value of a record, \<open>nil\<close> for
  a value of length 0. The sum \<open>keyPos+keyLen\<close> is written with its wrap-around.\<close>

definition index_k :: "batchIndex \<Rightarrow> bytes \<Rightarrow> panic + bytes" where
  "index_k index data = slice data (keyPos index) (int64 (keyPos index + keyLen index))"

definition index_v :: "batchIndex \<Rightarrow> bytes \<Rightarrow> panic + bytes" where
  "index_v index data =
     (if valueLen index \<noteq> 0
      then slice data (valuePos index) (int64 (valuePos index + valueLen index))
      else Inr [])"

text \<open>Modelled from the spec: \<open>makeInternalKey\<close> is declared outside the file. The spec
  gives it: it fails if the sequence number exceeds the largest one that 56 bits hold, and
  otherwise returns the user key followed by the trailer of 8 bytes, the little-endian
  64-bit number with the sequence number in its upper 56 bits and the tag in its lowest
  byte. It returns no error, so its failure is a panic. The buffer \<open>dst\<close> it may reuse
  does not change its result.\<close>

definition keyMaxSeq :: "64 word" where
  "keyMaxSeq = 2 ^ 56 - 1"

definition put_uint64 :: "64 word \<Rightarrow> bytes" where
  "put_uint64 w = map (\<lambda>j. ucast (drop_bit (8 * j) w)) [0..<8]"

definition makeInternalKey :: "bytes \<Rightarrow> bytes \<Rightarrow> 64 word \<Rightarrow> keyType \<Rightarrow> panic + bytes" where
  "makeInternalKey dst ukey seq kt =
     (if seq > keyMaxSeq then Inl (Panic ''leveldb: invalid sequence number'')
      else Inr (ukey @ put_uint64 (push_bit 8 seq OR kt)))"

text \<open>Modelled from the spec: the store type \<open>memdb.DB\<close> that the batch code writes to is
  declared outside the file. The store \<open>DB_\<close> of the file, which has the operations the
  spec gives the skip list store, stands for it: \<open>mdb.Put\<close> is \<open>DB_.Put\<close>, which returns
  the error \<open>nil\<close>, and \<open>mdb.Delete\<close> is \<open>DB_.Delete\<close>.\<close>

definition mdb_Put :: "DB \<Rightarrow> bytes \<Rightarrow> bytes \<Rightarrow> (panic + error option \<times> DB) option" where
  "mdb_Put mdb key val = bindR (Put mdb key val) (\<lambda>mdb'. Some (Inr (None, mdb')))"

definition mdb_Delete :: "DB \<Rightarrow> bytes \<Rightarrow> (panic + error option \<times> DB) option" where
  "mdb_Delete mdb key = Delete mdb key"

text \<open>\<open>putMem\<close> and \<open>revertMem\<close>: the loop \<open>for i, index := range b.index\<close> over the records
  that are left, with the buffer \<open>ik\<close> and the store.\<close>

fun putMem_loop ::
  "bytes \<Rightarrow> 64 word \<Rightarrow> int \<Rightarrow> batchIndex list \<Rightarrow> bytes \<Rightarrow> DB \<Rightarrow> (panic + error option \<times> DB) option" where
  "putMem_loop data seq i [] ik mdb = Some (Inr (None, mdb))"
| "putMem_loop data seq i (index # rest) ik mdb =
     bindR (Some (index_k index data)) (\<lambda>k.
     bindR (Some (makeInternalKey ik k (seq + word_of_int i) (keyType index))) (\<lambda>ik'.
     bindR (Some (index_v index data)) (\<lambda>v.
     bindR (mdb_Put mdb ik' v) (\<lambda>(err, mdb').
       if err \<noteq> None then Some (Inr (err, mdb'))
       else putMem_loop data seq (i + 1) rest ik' mdb'))))"

definition putMem :: "Batch \<Rightarrow> 64 word \<Rightarrow> DB \<Rightarrow> (panic + error option \<times> DB) option" where
  "putMem b seq mdb = putMem_loop (b_data b) seq 0 (b_index b) [] mdb"

fun revertMem_loop ::
  "bytes \<Rightarrow> 64 word \<Rightarrow> int \<Rightarrow> batchIndex list \<Rightarrow> bytes \<Rightarrow> DB \<Rightarrow> (panic + error option \<times> DB) option" where
  "revertMem_loop data seq i [] ik mdb = Some (Inr (None, mdb))"
| "revertMem_loop data seq i (index # rest) ik mdb =
     bindR (Some (index_k index data)) (\<lambda>k.
     bindR (Some (makeInternalKey ik k (seq + word_of_int i) (keyType index))) (\<lambda>ik'.
     bindR (mdb_Delete mdb ik') (\<lambda>(err, mdb').
       if err \<noteq> None then Some (Inr (err, mdb'))
       else revertMem_loop data seq (i + 1) rest ik' mdb')))"

definition revertMem :: "Batch \<Rightarrow> 64 word \<Rightarrow> DB \<Rightarrow> (panic + error option \<times> DB) option" where
  "revertMem b seq mdb = revertMem_loop (b_data b) seq 0 (b_index b) [] mdb"

text \<open>\<open>decodeBatchToMem\<close>. Its callback captures \<open>data\<close> (the buffer behind the header),
  \<open>seq\<close> and \<open>batchLen\<close>, and changes \<open>ik\<close>, the store and \<open>decodedLen\<close>.\<close>

definition toMem_fn ::
  "bytes \<Rightarrow> 64 word \<Rightarrow> int \<Rightarrow> int \<Rightarrow> batchIndex \<Rightarrow> bytes \<times> DB \<times> int
     \<Rightarrow> (panic + error option \<times> (bytes \<times> DB \<times> int)) option" where
  "toMem_fn data seq batchLen i index st =
     (case st of (ik, mdb, decodedLen) \<Rightarrow>
        if i \<ge> batchLen
        then Some (Inr (Some (newErrBatchCorrupted ''invalid records length''), st))
        else
          bindR (Some (index_k index data)) (\<lambda>k.
          bindR (Some (makeInternalKey ik k (seq + word_of_int i) (keyType index))) (\<lambda>ik'.
          bindR (Some (index_v index data)) (\<lambda>v.
          bindR (mdb_Put mdb ik' v) (\<lambda>(err, mdb').
            if err \<noteq> None then Some (Inr (err, (ik', mdb', decodedLen)))
            else Some (Inr (None, (ik', mdb', decodedLen + 1))))))))"

definition decodeBatchToMem ::
  "bytes \<Rightarrow> 64 word \<Rightarrow> DB \<Rightarrow> (panic + (64 word \<times> int \<times> error option) \<times> DB) option" where
  "decodeBatchToMem data0 expectSeq mdb =
     (case decodeBatchHeader data0 of (seq, batchLen, err) \<Rightarrow>
        if err \<noteq> None then Some (Inr ((0, 0, err), mdb))
        else
          bindR (Some (slice data0 batchHeaderLen (int (length data0)))) (\<lambda>data.
          bindR (decodeBatch data (toMem_fn data seq batchLen) ([], mdb, 0)) (\<lambda>(err', (ik, mdb', decodedLen)).
            if err' = None \<and> decodedLen \<noteq> batchLen
            then Some (Inr ((seq, batchLen, Some (newErrBatchCorrupted
                    (''invalid records length: '' @ fmt_dec batchLen @ '' vs '' @ fmt_dec decodedLen))),
                  mdb'))
            else Some (Inr ((seq, batchLen, err'), mdb')))))"

text \<open>The states in which the loop of \<open>decodeBatch\<close> begins a pass: the number \<open>i\<close> of the
  record, the offset \<open>o\<close> and the state of the callback, after the records before it were
  decoded and the callback returned \<open>nil\<close> for each.\<close>

inductive reach ::
  "bytes \<Rightarrow> (int \<Rightarrow> batchIndex \<Rightarrow> 's \<Rightarrow> (panic + error option \<times> 's) option) \<Rightarrow> 's \<Rightarrow> int \<Rightarrow> int \<Rightarrow> 's \<Rightarrow> bool"
  for data fn s0 where
  start: "reach data fn s0 0 0 s0"
| step: "reach data fn s0 i o1 s \<Longrightarrow> o1 < int (length data)
          \<Longrightarrow> decode_record data o1 = Inr (Inr (index, o2))
          \<Longrightarrow> fn i index s = Some (Inr (None, s'))
          \<Longrightarrow> reach data fn s0 (i + 1) o2 s'"

section \<open>The skip list as a sorted list of nodes\<close>

text \<open>
  The live nodes of a store are described by the list \<open>L\<close> of their positions in
  \<open>nodeData\<close>, in the order of their keys. \<open>sl_inv p L\<close> says that the arrays of \<open>p\<close> hold
  a skip list of these nodes: on every level \<open>h\<close> the \<open>next\<close> pointers chain the head and
  the nodes of \<open>L\<close> that are higher than \<open>h\<close>, in order, and end in 0; the nodes lie
  inside the arrays and do not overlap; the keys increase strictly; and \<open>n\<close>
  and \<open>kvSize\<close> count the nodes and their bytes. \<open>entries p L\<close> are the pairs the nodes
  hold. A sequence of calls on a store, and the reference map it is compared with, are
  \<open>run_ops\<close> and \<open>replay\<close>.
\<close>

definition lin_cmp :: "(bytes \<Rightarrow> bytes \<Rightarrow> int) \<Rightarrow> bool" where
  "lin_cmp c \<longleftrightarrow>
     (\<forall>a b. (c a b = 0) = (a = b)) \<and> (\<forall>a b. (c a b < 0) = (0 < c b a))
     \<and> (\<forall>a b d. c a b < 0 \<and> c b d < 0 \<longrightarrow> c a d < 0)"

definition hgt :: "DB \<Rightarrow> int \<Rightarrow> int" where
  "hgt p x = nodeData p ! nat (x + nHeight)"

definition nxt :: "DB \<Rightarrow> int \<Rightarrow> int \<Rightarrow> int" where
  "nxt p h x = nodeData p ! nat (x + nNext + h)"

definition keyLenOf :: "DB \<Rightarrow> int \<Rightarrow> int" where
  "keyLenOf p x = nodeData p ! nat (x + nKey)"

definition valLenOf :: "DB \<Rightarrow> int \<Rightarrow> int" where
  "valLenOf p x = nodeData p ! nat (x + nVal)"

definition keyOf :: "DB \<Rightarrow> int \<Rightarrow> bytes" where
  "keyOf p x = take (nat (keyLenOf p x)) (drop (nat (nodeData p ! nat x)) (kvData p))"

definition valOf :: "DB \<Rightarrow> int \<Rightarrow> bytes" where
  "valOf p x = take (nat (valLenOf p x)) (drop (nat (nodeData p ! nat x + keyLenOf p x)) (kvData p))"

definition level :: "DB \<Rightarrow> int list \<Rightarrow> int \<Rightarrow> int list" where
  "level p L h = filter (\<lambda>x. h < hgt p x) L"

definition node_ok :: "DB \<Rightarrow> int \<Rightarrow> bool" where
  "node_ok p x \<longleftrightarrow>
     nNext + tMaxHeight \<le> x \<and> x + nNext + hgt p x \<le> int (length (nodeData p))
     \<and> 1 \<le> hgt p x \<and> hgt p x \<le> maxHeight p
     \<and> 0 \<le> nodeData p ! nat x \<and> 0 \<le> keyLenOf p x \<and> 0 \<le> valLenOf p x
     \<and> nodeData p ! nat x + keyLenOf p x + valLenOf p x \<le> int (length (kvData p))"

definition key_lt :: "DB \<Rightarrow> int \<Rightarrow> int \<Rightarrow> bool" where
  "key_lt p x y \<longleftrightarrow> db_cmp p (keyOf p x) (keyOf p y) < 0"

definition sl_inv :: "DB \<Rightarrow> int list \<Rightarrow> bool" where
  "sl_inv p L \<longleftrightarrow>
     length (prevNode p) = 12
     \<and> nNext + tMaxHeight \<le> int (length (nodeData p))
     \<and> hgt p 0 = tMaxHeight
     \<and> 1 \<le> maxHeight p \<and> maxHeight p \<le> tMaxHeight
     \<and> (\<forall>x\<in>set L. node_ok p x)
     \<and> (\<forall>x\<in>set L. \<forall>y\<in>set L. x < y \<longrightarrow> x + nNext + hgt p x \<le> y)
     \<and> sorted_wrt (key_lt p) L
     \<and> (\<forall>h. 0 \<le> h \<and> h < tMaxHeight \<longrightarrow> map (nxt p h) (0 # level p L h) = level p L h @ [0])
     \<and> db_n p = int (length L)
     \<and> kvSize p = (\<Sum>x\<leftarrow>L. keyLenOf p x + valLenOf p x)"

definition below :: "DB \<Rightarrow> bytes \<Rightarrow> int \<Rightarrow> bool" where
  "below p k x \<longleftrightarrow> db_cmp p (keyOf p x) k < 0"

definition ge_node :: "DB \<Rightarrow> int list \<Rightarrow> bytes \<Rightarrow> int" where
  "ge_node p L k = hd (filter (\<lambda>x. \<not> below p k x) L @ [0])"

definition stop_node :: "DB \<Rightarrow> int list \<Rightarrow> bytes \<Rightarrow> int \<Rightarrow> int" where
  "stop_node p L k h = last (0 # filter (below p k) (level p L h))"

definition cmp_at :: "DB \<Rightarrow> bytes \<Rightarrow> int \<Rightarrow> int" where
  "cmp_at p k x = (if x \<noteq> 0 then db_cmp p (keyOf p x) k else 1)"

definition ge_at :: "DB \<Rightarrow> int list \<Rightarrow> bytes \<Rightarrow> int \<Rightarrow> int" where
  "ge_at p L k h = hd (filter (\<lambda>x. \<not> below p k x) (level p L h) @ [0])"

definition entries :: "DB \<Rightarrow> int list \<Rightarrow> (bytes \<times> bytes) list" where
  "entries p L = map (\<lambda>x. (keyOf p x, valOf p x)) L"

definition it_at :: "DB \<Rightarrow> int \<Rightarrow> dbIter" where
  "it_at p x = \<lparr>it_slice = None, it_node = x, it_forward = True,
                it_key = (if x = 0 then [] else keyOf p x),
                it_val = (if x = 0 then [] else valOf p x),
                it_err = None, it_released = False\<rparr>"

definition slot :: "int \<Rightarrow> int \<Rightarrow> int" where
  "slot n i = n + nNext + i"

datatype op = OpPut bytes bytes | OpDelete bytes | OpReset

fun apply_op :: "DB \<Rightarrow> op \<Rightarrow> (panic + DB) option" where
  "apply_op p (OpPut k v) = Put p k v"
| "apply_op p (OpDelete k) = bindR (Delete p k) (\<lambda>(err, p'). Some (Inr p'))"
| "apply_op p OpReset = Some (Reset p)"

fun run_ops :: "DB \<Rightarrow> op list \<Rightarrow> (panic + DB) option" where
  "run_ops p [] = Some (Inr p)"
| "run_ops p (a # as) = bindR (apply_op p a) (\<lambda>p'. run_ops p' as)"

definition store_after ::
  "(nat \<Rightarrow> int) \<Rightarrow> (int \<Rightarrow> int \<Rightarrow> int) \<Rightarrow> (bytes \<Rightarrow> bytes \<Rightarrow> int) \<Rightarrow> int \<Rightarrow> op list \<Rightarrow> (panic + DB) option" where
  "store_after src grow c capacity ops =
     bindR (Some (New_DB src grow c capacity)) (\<lambda>p. run_ops p ops)"

fun ref_op :: "(bytes \<rightharpoonup> bytes) \<Rightarrow> op \<Rightarrow> (bytes \<rightharpoonup> bytes)" where
  "ref_op m (OpPut k v) = m(k \<mapsto> v)"
| "ref_op m (OpDelete k) = m(k := None)"
| "ref_op m OpReset = Map.empty"

definition replay :: "op list \<Rightarrow> (bytes \<rightharpoonup> bytes)" where
  "replay ops = foldl ref_op Map.empty ops"

definition payload :: "(bytes \<times> bytes) list \<Rightarrow> int" where
  "payload kvs = (\<Sum>e\<leftarrow>kvs. int (length (fst e)) + int (length (snd e)))"

definition bottom_chain :: "DB \<Rightarrow> int list \<Rightarrow> bool" where
  "bottom_chain p L \<longleftrightarrow>
     0 \<notin> set L \<and> map (\<lambda>x. nodeData p ! nat (x + nNext)) (0 # L) = L @ [0]"

section \<open>Correctness of the skip list\<close>

subsection \<open>Generic list facts\<close>

lemma link_next:
  "map f (x0 # A @ B) = A @ B @ [z] \<Longrightarrow> f (last (x0 # A)) = hd (B @ [z])"
proof (induction A arbitrary: x0)
  case Nil
  then show ?case by (cases B) auto
next
  case (Cons a A)
  from Cons.prems have "map f (a # A @ B) = A @ B @ [z]" by simp
  from Cons.IH [OF this] show ?case by simp
qed

lemma sorted_filter_split:
  assumes "sorted_wrt R L" and "\<And>x y. R x y \<Longrightarrow> P y \<Longrightarrow> P x"
  shows "filter P L @ filter (\<lambda>x. \<not> P x) L = L \<and> takeWhile P L = filter P L"
  using assms(1)
proof (induction L)
  case Nil
  then show ?case by simp
next
  case (Cons a L)
  then have IH: "filter P L @ filter (\<lambda>x. \<not> P x) L = L" "takeWhile P L = filter P L"
    and aL: "\<forall>y\<in>set L. R a y" by auto
  show ?case
  proof (cases "P a")
    case True
    with IH show ?thesis by simp
  next
    case False
    have "\<forall>y\<in>set L. \<not> P y" using aL assms(2) False by blast
    then have "filter P L = []" by (simp add: filter_empty_conv)
    with False show ?thesis using \<open>\<forall>y\<in>set L. \<not> P y\<close> by simp
  qed
qed

subsection \<open>Frame: the abstraction does not read the scratch array\<close>

lemma prevNode_frame [simp]:
  "hgt (p\<lparr>prevNode := pn\<rparr>) = hgt p"
  "nxt (p\<lparr>prevNode := pn\<rparr>) = nxt p"
  "keyLenOf (p\<lparr>prevNode := pn\<rparr>) = keyLenOf p"
  "valLenOf (p\<lparr>prevNode := pn\<rparr>) = valLenOf p"
  "keyOf (p\<lparr>prevNode := pn\<rparr>) = keyOf p"
  "valOf (p\<lparr>prevNode := pn\<rparr>) = valOf p"
  "level (p\<lparr>prevNode := pn\<rparr>) = level p"
  "node_ok (p\<lparr>prevNode := pn\<rparr>) = node_ok p"
  "key_lt (p\<lparr>prevNode := pn\<rparr>) = key_lt p"
  "below (p\<lparr>prevNode := pn\<rparr>) = below p"
  "ge_node (p\<lparr>prevNode := pn\<rparr>) = ge_node p"
  "stop_node (p\<lparr>prevNode := pn\<rparr>) = stop_node p"
  "cmp_at (p\<lparr>prevNode := pn\<rparr>) = cmp_at p"
  by (simp_all add: fun_eq_iff cmp_at_def hgt_def nxt_def keyLenOf_def valLenOf_def keyOf_def valOf_def
      level_def node_ok_def key_lt_def below_def ge_node_def stop_node_def)

lemma sl_inv_prevNode: "sl_inv p L \<Longrightarrow> length pn = 12 \<Longrightarrow> sl_inv (p\<lparr>prevNode := pn\<rparr>) L"
  by (simp add: sl_inv_def)

subsection \<open>Consequences of the invariant\<close>

lemma inv_node_ok: "sl_inv p L \<Longrightarrow> x \<in> set L \<Longrightarrow> node_ok p x"
  by (simp add: sl_inv_def)

lemma inv_links: "sl_inv p L \<Longrightarrow> 0 \<le> h \<Longrightarrow> h < 12 \<Longrightarrow> map (nxt p h) (0 # level p L h) = level p L h @ [0]"
  by (simp add: sl_inv_def tMaxHeight_def)

lemma inv_sorted: "sl_inv p L \<Longrightarrow> sorted_wrt (key_lt p) L"
  by (simp add: sl_inv_def)

lemma level_sorted: "sl_inv p L \<Longrightarrow> sorted_wrt (key_lt p) (level p L h)"
  unfolding level_def by (intro sorted_wrt_filter inv_sorted)

lemma below_closed:
  assumes "lin_cmp (db_cmp p)" "key_lt p x y" "below p k y"
  shows "below p k x"
  using assms unfolding lin_cmp_def key_lt_def below_def by blast

lemma level_split:
  assumes "sl_inv p L" "lin_cmp (db_cmp p)"
  shows "filter (below p k) (level p L h) @ filter (\<lambda>x. \<not> below p k x) (level p L h) = level p L h"
    and "takeWhile (below p k) (level p L h) = filter (below p k) (level p L h)"
  using sorted_filter_split [OF level_sorted [OF assms(1)], of "below p k" h]
    below_closed [OF assms(2)] by blast+

lemma level0: "sl_inv p L \<Longrightarrow> level p L 0 = L"
  unfolding level_def
  by (rule filter_True) (auto dest!: inv_node_ok simp: node_ok_def)

lemma nodeKey_ok: "node_ok p x \<Longrightarrow> nodeKey p x = Inr (keyOf p x)"
  by (simp add: node_ok_def nodeKey_def ixg_def slice_def keyOf_def keyLenOf_def hgt_def layout_defs)

lemma slot_in_range:
  assumes "sl_inv p L" "x \<in> set (0 # level p L h)" "0 \<le> h" "h < 12"
  shows "0 \<le> x + nNext + h \<and> x + nNext + h < int (length (nodeData p))"
proof (cases "x = 0")
  case True
  with assms show ?thesis by (simp add: sl_inv_def layout_defs)
next
  case False
  with assms(2) have "x \<in> set L" "h < hgt p x" by (auto simp: level_def)
  with inv_node_ok [OF assms(1), of x] assms(3) show ?thesis
    by (simp add: node_ok_def layout_defs)
qed

lemma findGE_step:
  assumes "0 \<le> node + nNext + h" "node + nNext + h < int (length (nodeData p))"
    and "nxt p h node \<noteq> 0 \<longrightarrow> nodeKey p (nxt p h node) = Inr (keyOf p (nxt p h node))"
  shows "findGE_loop p k prev node h =
     (if cmp_at p k (nxt p h node) < 0 then findGE_loop p k prev (nxt p h node) h
      else
         bindR (Some (if prev then bindE (upd (prevNode p) h node) (\<lambda>pn. Inr (p\<lparr>prevNode := pn\<rparr>))
                      else Inr p)) (\<lambda>p'.
           if \<not> prev \<and> cmp_at p k (nxt p h node) = 0
           then Some (Inr ((nxt p h node, True), p'))
           else if h = 0
           then Some (Inr ((nxt p h node, cmp_at p k (nxt p h node) = 0), p'))
           else findGE_loop p' k prev node (h - 1)))"
proof -
  have ix: "ixg (nodeData p) (node + nNext + h) = Inr (nxt p h node)"
    using assms(1,2) by (simp add: ixg_def nxt_def)
  have c: "(if nxt p h node \<noteq> 0
            then bindE (nodeKey p (nxt p h node)) (\<lambda>ka. Inr (db_cmp p ka k)) else Inr 1)
           = Inr (cmp_at p k (nxt p h node))"
    using assms(3) by (simp add: cmp_at_def)
  show ?thesis
    by (subst findGE_loop.simps) (simp only: ix c bindR_simps)
qed

lemma findGE_advance:
  assumes inv: "sl_inv p L" and lin: "lin_cmp (db_cmp p)" and h: "0 \<le> h" "h < 12"
    and split: "level p L h = A @ B" and A: "\<forall>x\<in>set A. below p k x"
  shows "findGE_loop p k prev (last (0 # A)) h
       = findGE_loop p k prev (last (0 # A @ takeWhile (below p k) B)) h"
  using split A
proof (induction B arbitrary: A)
  case Nil
  then show ?case by simp
next
  case (Cons b B)
  show ?case
  proof (cases "below p k b")
    case False
    then show ?thesis by simp
  next
    case True
    define node where "node = last (0 # A)"
    have mem: "node \<in> set (0 # level p L h)"
      unfolding node_def using Cons.prems(1) last_in_set [of "0 # A"] by auto
    have nx: "nxt p h node = b"
      unfolding node_def
      using link_next [of "nxt p h" 0 A "b # B" 0] inv_links [OF inv h] Cons.prems(1) by simp
    have "b \<in> set (level p L h)" using Cons.prems(1) by simp
    then have "b \<in> set L" by (simp add: level_def)
    then have ok: "node_ok p b" by (rule inv_node_ok [OF inv])
    then have b0: "b \<noteq> 0" by (simp add: node_ok_def layout_defs)
    have c: "cmp_at p k b < 0" using True b0 by (simp add: cmp_at_def below_def)
    note r = slot_in_range [OF inv mem h]
    have nk: "nxt p h node \<noteq> 0 \<longrightarrow> nodeKey p (nxt p h node) = Inr (keyOf p (nxt p h node))"
      unfolding nx using nodeKey_ok [OF ok] by simp
    have "findGE_loop p k prev node h = findGE_loop p k prev b h"
      by (rule trans [OF findGE_step [OF r [THEN conjunct1] r [THEN conjunct2] nk]])
         (simp only: nx c if_True)
    then have step: "findGE_loop p k prev (last (0 # A)) h = findGE_loop p k prev b h"
      by (simp only: node_def)
    have "findGE_loop p k prev (last (0 # (A @ [b]))) h
        = findGE_loop p k prev (last (0 # (A @ [b]) @ takeWhile (below p k) B)) h"
      using Cons.prems True by (intro Cons.IH) auto
    with step True show ?thesis by simp
  qed
qed

lemma ge_at_frame [simp]: "ge_at (p\<lparr>prevNode := pn\<rparr>) = ge_at p"
  by (simp add: fun_eq_iff ge_at_def)

lemma findGE_to_stop:
  assumes inv: "sl_inv p L" and lin: "lin_cmp (db_cmp p)" and h: "0 \<le> h" "h < 12"
    and node: "node \<in> set (0 # filter (below p k) (level p L h))"
  shows "findGE_loop p k prev node h = findGE_loop p k prev (stop_node p L k h) h"
proof -
  have "\<exists>A B. level p L h = A @ B \<and> node = last (0 # A) \<and> (\<forall>x\<in>set A. below p k x)"
  proof (cases "node = 0")
    case True
    then show ?thesis by (intro exI [of _ "[]"] exI [of _ "level p L h"]) simp
  next
    case False
    with node have n: "node \<in> set (level p L h)" "below p k node" by auto
    from split_list [OF n(1)] obtain A' B where s: "level p L h = A' @ node # B" by blast
    from level_sorted [OF inv, of h] have "\<forall>x\<in>set A'. key_lt p x node"
      unfolding s by (simp add: sorted_wrt_append)
    with below_closed [OF lin _ n(2)] have "\<forall>x\<in>set A'. below p k x" by blast
    with n(2) s show ?thesis
      by (intro exI [of _ "A' @ [node]"] exI [of _ B]) simp
  qed
  then obtain A B where s: "level p L h = A @ B" and n: "node = last (0 # A)"
    and A: "\<forall>x\<in>set A. below p k x" by blast
  have "takeWhile (below p k) (level p L h) = A @ takeWhile (below p k) B"
    unfolding s using A by (simp add: takeWhile_append2)
  with level_split(2) [OF inv lin, of k h]
  have "stop_node p L k h = last (0 # A @ takeWhile (below p k) B)"
    by (simp add: stop_node_def)
  with findGE_advance [OF inv lin h s A, of prev] n show ?thesis by simp
qed

lemma stop_node_mem:
  "stop_node p L k h \<in> set (0 # filter (below p k) (level p L h))"
  unfolding stop_node_def using last_in_set [of "0 # filter (below p k) (level p L h)"] by simp

lemma stop_next:
  assumes inv: "sl_inv p L" and lin: "lin_cmp (db_cmp p)" and h: "0 \<le> h" "h < 12"
  shows "nxt p h (stop_node p L k h) = ge_at p L k h"
  unfolding stop_node_def ge_at_def
  using link_next [of "nxt p h" 0 "filter (below p k) (level p L h)"
      "filter (\<lambda>x. \<not> below p k x) (level p L h)" 0]
    inv_links [OF inv h] level_split(1) [OF inv lin, of k h]
  by simp

lemma ge_at_cases:
  "ge_at p L k h = 0 \<or> (ge_at p L k h \<in> set L \<and> h < hgt p (ge_at p L k h) \<and> \<not> below p k (ge_at p L k h))"
proof (cases "filter (\<lambda>x. \<not> below p k x) (level p L h)")
  case Nil
  then show ?thesis by (simp add: ge_at_def)
next
  case (Cons a as)
  have "a \<in> set (filter (\<lambda>x. \<not> below p k x) (level p L h))" unfolding Cons by simp
  then have "a \<in> set L \<and> h < hgt p a \<and> \<not> below p k a" by (simp add: level_def)
  moreover have "ge_at p L k h = a" by (simp add: ge_at_def Cons)
  ultimately show ?thesis by simp
qed

lemma ge_at_not_below:
  assumes inv: "sl_inv p L"
  shows "\<not> cmp_at p k (ge_at p L k h) < 0"
  using ge_at_cases [of p L k h] by (auto simp: cmp_at_def below_def)

lemma ge_exact:
  assumes inv: "sl_inv p L" and lin: "lin_cmp (db_cmp p)"
    and x: "x \<in> set L" "db_cmp p (keyOf p x) k = 0"
  shows "ge_node p L k = x"
proof -
  from lin x(2) have kx: "keyOf p x = k" by (simp add: lin_cmp_def)
  from split_list [OF x(1)] obtain A B where s: "L = A @ x # B" by blast
  from inv_sorted [OF inv] have "\<forall>y\<in>set A. key_lt p y x"
    unfolding s by (simp add: sorted_wrt_append)
  then have "\<forall>y\<in>set A. below p k y" by (simp add: key_lt_def below_def kx)
  then have "filter (\<lambda>x. \<not> below p k x) A = []" by (simp add: filter_empty_conv)
  moreover have "\<not> below p k x" using x(2) by (simp add: below_def)
  ultimately show ?thesis by (simp add: ge_node_def s)
qed

lemma ge_at_0: "sl_inv p L \<Longrightarrow> ge_at p L k 0 = ge_node p L k"
  by (simp add: ge_at_def ge_node_def level0)

lemma level_mono: "x \<in> set (level p L (h + 1)) \<Longrightarrow> x \<in> set (level p L h)"
  by (auto simp: level_def)

lemma findGE_at_stop:
  assumes inv: "sl_inv p L" and lin: "lin_cmp (db_cmp p)" and h: "0 \<le> h" "h < 12"
  shows "findGE_loop p k prev (stop_node p L k h) h =
         bindR (Some (if prev then Inr (p\<lparr>prevNode := (prevNode p)[nat h := stop_node p L k h]\<rparr>)
                      else Inr p)) (\<lambda>p'.
           if \<not> prev \<and> cmp_at p k (ge_at p L k h) = 0
           then Some (Inr ((ge_at p L k h, True), p'))
           else if h = 0
           then Some (Inr ((ge_at p L k h, cmp_at p k (ge_at p L k h) = 0), p'))
           else findGE_loop p' k prev (stop_node p L k h) (h - 1))"
proof -
  note r = slot_in_range [OF inv _ h, of "stop_node p L k h"]
  have mem: "stop_node p L k h \<in> set (0 # level p L h)"
    using stop_node_mem [of p L k h] by auto
  have nk: "nxt p h (stop_node p L k h) \<noteq> 0 \<longrightarrow>
      nodeKey p (nxt p h (stop_node p L k h)) = Inr (keyOf p (nxt p h (stop_node p L k h)))"
    unfolding stop_next [OF inv lin h]
    using ge_at_cases [of p L k h] inv_node_ok [OF inv] nodeKey_ok by blast
  have u: "upd (prevNode p) h (stop_node p L k h) = Inr ((prevNode p)[nat h := stop_node p L k h])"
    using inv h by (simp add: upd_def sl_inv_def)
  note st = findGE_step [OF r [OF mem, THEN conjunct1] r [OF mem, THEN conjunct2] nk, of k prev,
      unfolded stop_next [OF inv lin h] u bindE_simps]
  show ?thesis
    by (rule trans [OF st]) (simp only: ge_at_not_below [OF inv] if_False)
qed

lemma findGE_loop_correct:
  assumes lin: "lin_cmp (db_cmp p)" and inv: "sl_inv p L" and hn: "hn < 12"
    and node: "node \<in> set (0 # filter (below p k) (level p L (int hn)))"
  shows "\<exists>p'. findGE_loop p k prev node (int hn)
            = Some (Inr ((ge_node p L k, cmp_at p k (ge_node p L k) = 0), p'))
          \<and> (if prev
              then (\<exists>pn. p' = p\<lparr>prevNode := pn\<rparr> \<and> length pn = 12
                      \<and> (\<forall>j\<le>hn. pn ! j = stop_node p L k (int j))
                      \<and> (\<forall>j>hn. pn ! j = prevNode p ! j))
              else p' = p)"
  using lin inv hn node
proof (induction hn arbitrary: p node)
  case 0
  note inv = "0.prems"(2) and lin = "0.prems"(1)
  have s: "findGE_loop p k prev node 0 = findGE_loop p k prev (stop_node p L k 0) 0"
    using findGE_to_stop [OF inv lin _ _ , of 0 node k prev] "0.prems"(4) by simp
  have len: "length (prevNode p) = 12" using inv by (simp add: sl_inv_def)
  show ?case
  proof (cases prev)
    case True
    show ?thesis
      unfolding int_ops s
      apply (subst findGE_at_stop [OF inv lin])
        apply simp
       apply simp
      apply (simp add: True ge_at_0 [OF inv])
      apply (rule exI [of _ "(prevNode p)[0 := stop_node p L k 0]"])
      apply (simp add: len)
      done
  next
    case False
    show ?thesis
      unfolding int_ops s
      apply (subst findGE_at_stop [OF inv lin])
        apply simp
       apply simp
      apply (simp add: False ge_at_0 [OF inv])
      done
  qed
next
  case (Suc hn)
  note inv = Suc.prems(2) and lin = Suc.prems(1)
  let ?h = "int (Suc hn)"
  let ?s = "stop_node p L k ?h"
  have h: "0 \<le> ?h" "?h < 12" using Suc.prems(3) by simp_all
  have s: "findGE_loop p k prev node ?h = findGE_loop p k prev ?s ?h"
    using findGE_to_stop [OF inv lin h Suc.prems(4)] .
  have len: "length (prevNode p) = 12" using inv by (simp add: sl_inv_def)
  have hm: "?h - 1 = int hn" by simp
  have smem: "?s \<in> set (0 # filter (below p k) (level p L (int hn)))"
    using stop_node_mem [of p L k ?h] level_mono [of _ p L "int hn"] by (auto simp: add.commute)
  note at = findGE_at_stop [OF inv lin h, of k prev, unfolded hm nat_int]
  show ?case
  proof (cases prev)
    case True
    let ?p1 = "p\<lparr>prevNode := (prevNode p)[Suc hn := ?s]\<rparr>"
    have inv1: "sl_inv ?p1 L" using inv len by (intro sl_inv_prevNode) simp_all
    have lin1: "lin_cmp (db_cmp ?p1)" using lin by simp
    from Suc.IH [OF lin1 inv1 _ , of ?s] smem Suc.prems(3) True
    obtain pn where r: "findGE_loop ?p1 k prev ?s (int hn)
        = Some (Inr ((ge_node p L k, cmp_at p k (ge_node p L k) = 0), p\<lparr>prevNode := pn\<rparr>))"
      and pn: "length pn = 12" "\<forall>j\<le>hn. pn ! j = stop_node p L k (int j)"
        "\<forall>j>hn. pn ! j = ((prevNode p)[Suc hn := ?s]) ! j"
      by auto
    have "\<forall>j\<le>Suc hn. pn ! j = stop_node p L k (int j)"
    proof (intro allI impI)
      fix j assume "j \<le> Suc hn"
      show "pn ! j = stop_node p L k (int j)"
      proof (cases "j = Suc hn")
        case True
        with pn(3) len Suc.prems(3) show ?thesis by simp
      next
        case False
        with \<open>j \<le> Suc hn\<close> pn(2) show ?thesis by simp
      qed
    qed
    moreover have "\<forall>j>Suc hn. pn ! j = prevNode p ! j"
      using pn(3) by simp
    moreover have "findGE_loop p k prev node ?h
        = Some (Inr ((ge_node p L k, cmp_at p k (ge_node p L k) = 0), p\<lparr>prevNode := pn\<rparr>))"
      unfolding s at using True r by simp
    ultimately show ?thesis using True pn(1) by auto
  next
    case False
    show ?thesis
    proof (cases "cmp_at p k (ge_at p L k ?h) = 0")
      case c: True
      then have g0: "ge_at p L k ?h \<noteq> 0" by (auto simp: cmp_at_def)
      with ge_at_cases [of p L k ?h] have "ge_at p L k ?h \<in> set L" by simp
      from ge_exact [OF inv lin this] c g0 have g: "ge_node p L k = ge_at p L k ?h"
        by (simp add: cmp_at_def)
      show ?thesis unfolding s at using False c g by simp
    next
      case c: False
      from Suc.IH [OF lin inv _ smem] Suc.prems(3) False
      have "findGE_loop p k prev ?s (int hn)
        = Some (Inr ((ge_node p L k, cmp_at p k (ge_node p L k) = 0), p))" by auto
      then show ?thesis unfolding s at using False c by simp
    qed
  qed
qed

lemma findGE_correct:
  assumes lin: "lin_cmp (db_cmp p)" and inv: "sl_inv p L"
  shows "\<exists>p'. findGE p k prev = Some (Inr ((ge_node p L k, cmp_at p k (ge_node p L k) = 0), p'))
          \<and> (if prev
              then (\<exists>pn. p' = p\<lparr>prevNode := pn\<rparr> \<and> length pn = 12
                      \<and> (\<forall>j. int j < maxHeight p \<longrightarrow> pn ! j = stop_node p L k (int j)))
              else p' = p)"
proof -
  define hn where "hn = nat (maxHeight p - 1)"
  from inv have mh: "1 \<le> maxHeight p" "maxHeight p \<le> 12" by (simp_all add: sl_inv_def tMaxHeight_def)
  then have hn: "hn < 12" "maxHeight p - 1 = int hn" by (simp_all add: hn_def)
  from findGE_loop_correct [OF lin inv hn(1), of 0 k prev]
  obtain p' where r: "findGE_loop p k prev 0 (int hn)
            = Some (Inr ((ge_node p L k, cmp_at p k (ge_node p L k) = 0), p'))"
    and p': "if prev
              then (\<exists>pn. p' = p\<lparr>prevNode := pn\<rparr> \<and> length pn = 12
                      \<and> (\<forall>j\<le>hn. pn ! j = stop_node p L k (int j))
                      \<and> (\<forall>j>hn. pn ! j = prevNode p ! j))
              else p' = p"
    by auto
  have "\<And>j. int j < maxHeight p \<Longrightarrow> j \<le> hn" using hn(2) by simp
  with p' have "if prev
              then (\<exists>pn. p' = p\<lparr>prevNode := pn\<rparr> \<and> length pn = 12
                      \<and> (\<forall>j. int j < maxHeight p \<longrightarrow> pn ! j = stop_node p L k (int j)))
              else p' = p"
    by (cases prev) auto
  with r show ?thesis by (auto simp: findGE_def hn(2))
qed

subsection \<open>The entries of the store and the reading operations\<close>

lemma node_fields:
  assumes "node_ok p x"
  shows "ixg (nodeData p) x = Inr (nodeData p ! nat x)"
    and "ixg (nodeData p) (x + nKey) = Inr (keyLenOf p x)"
    and "ixg (nodeData p) (x + nVal) = Inr (valLenOf p x)"
    and "ixg (nodeData p) (x + nHeight) = Inr (hgt p x)"
    and "slice (kvData p) (nodeData p ! nat x) (nodeData p ! nat x + keyLenOf p x) = Inr (keyOf p x)"
    and "slice (kvData p) (nodeData p ! nat x + keyLenOf p x)
           (nodeData p ! nat x + keyLenOf p x + valLenOf p x) = Inr (valOf p x)"
  using assms
  by (simp_all add: node_ok_def ixg_def slice_def keyOf_def valOf_def keyLenOf_def valLenOf_def
      hgt_def layout_defs)

lemma ge_node_cases:
  assumes inv: "sl_inv p L"
  shows "ge_node p L k = 0 \<or> (ge_node p L k \<in> set L \<and> \<not> below p k (ge_node p L k))"
  using ge_at_cases [of p L k 0] by (auto simp: ge_at_0 [OF inv])

lemma ge_node_ok: "sl_inv p L \<Longrightarrow> ge_node p L k \<noteq> 0 \<Longrightarrow> node_ok p (ge_node p L k)"
  using ge_node_cases [of p L k] inv_node_ok by blast

lemma exact_ok: "sl_inv p L \<Longrightarrow> cmp_at p k (ge_node p L k) = 0 \<Longrightarrow> node_ok p (ge_node p L k)"
  by (rule ge_node_ok) (auto simp: cmp_at_def)

lemma Get_correct:
  assumes lin: "lin_cmp (db_cmp p)" and inv: "sl_inv p L"
  shows "Get p k = Some (Inr (if cmp_at p k (ge_node p L k) = 0
                              then (valOf p (ge_node p L k), None) else ([], Some ErrNotFound)))"
proof -
  from findGE_correct [OF lin inv, of k False]
  have f: "findGE p k False = Some (Inr ((ge_node p L k, cmp_at p k (ge_node p L k) = 0), p))" by simp
  show ?thesis
  proof (cases "cmp_at p k (ge_node p L k) = 0")
    case True
    note nf = node_fields [OF exact_ok [OF inv True]]
    show ?thesis by (simp add: Get_def f True nf)
  next
    case False
    then show ?thesis by (simp add: Get_def f)
  qed
qed

lemma Contains_correct:
  assumes lin: "lin_cmp (db_cmp p)" and inv: "sl_inv p L"
  shows "Contains p k = Some (Inr (cmp_at p k (ge_node p L k) = 0))"
  using findGE_correct [OF lin inv, of k False] by (simp add: Contains_def)

lemma Find_correct:
  assumes lin: "lin_cmp (db_cmp p)" and inv: "sl_inv p L"
  shows "Find p k = Some (Inr (if ge_node p L k \<noteq> 0
                               then ((keyOf p (ge_node p L k), valOf p (ge_node p L k)), None)
                               else (([], []), Some ErrNotFound)))"
proof -
  from findGE_correct [OF lin inv, of k False]
  have f: "findGE p k False = Some (Inr ((ge_node p L k, cmp_at p k (ge_node p L k) = 0), p))" by simp
  show ?thesis
  proof (cases "ge_node p L k \<noteq> 0")
    case True
    note nf = node_fields [OF ge_node_ok [OF inv True]]
    show ?thesis using True by (simp add: Find_def f nf)
  next
    case False
    then show ?thesis by (simp add: Find_def f)
  qed
qed

subsection \<open>Forward iteration\<close>

lemma fill_at:
  assumes "x \<noteq> 0 \<longrightarrow> node_ok p x" "it_slice i = None" "it_node i = x"
  shows "fill p i cs cl = Inr (x \<noteq> 0, i\<lparr>it_key := (if x = 0 then [] else keyOf p x),
                                         it_val := (if x = 0 then [] else valOf p x)\<rparr>)"
proof (cases "x = 0")
  case True
  with assms show ?thesis by (simp add: fill_def)
next
  case False
  with assms(1) have "node_ok p x" by simp
  note nf = node_fields [OF this]
  from False assms(2,3) show ?thesis by (simp add: fill_def nf out_of_range_def)
qed

lemma head_next: "sl_inv p L \<Longrightarrow> nxt p 0 0 = hd (L @ [0])"
  using link_next [of "nxt p 0" 0 "[]" L 0] inv_links [of p L 0] by (simp add: level0)

lemma node_next:
  assumes inv: "sl_inv p L" and L: "L = A @ b # B"
  shows "nxt p 0 b = hd (B @ [0])"
proof -
  have "level p L 0 = (A @ [b]) @ B" using level0 [OF inv] L by simp
  with inv_links [OF inv, of 0]
  have "map (nxt p 0) (0 # (A @ [b]) @ B) = (A @ [b]) @ B @ [0]" by simp
  from link_next [OF this] show ?thesis by simp
qed

lemma inv_nonzero: "sl_inv p L \<Longrightarrow> x \<in> set L \<Longrightarrow> x \<noteq> 0"
  by (drule (1) inv_node_ok) (simp add: node_ok_def layout_defs)

lemma hd_nonzero:
  assumes "\<forall>x\<in>set B. x \<noteq> (0::int)"
  shows "(hd (B @ [0]) \<noteq> 0) = (B \<noteq> [])"
  using assms by (cases B) simp_all

lemma hd_ok:
  assumes "\<forall>x\<in>set B. node_ok p x"
  shows "hd (B @ [0]) \<noteq> 0 \<longrightarrow> node_ok p (hd (B @ [0]))"
  using assms by (cases B) simp_all

lemma First_correct:
  assumes inv: "sl_inv p L"
  shows "First p (NewIterator None) = Some (Inr (L \<noteq> [], it_at p (hd (L @ [0]))))"
proof -
  have ix: "ixg (nodeData p) nNext = Inr (hd (L @ [0]))"
    using head_next [OF inv] inv by (simp add: ixg_def nxt_def sl_inv_def layout_defs)
  have ok: "hd (L @ [0]) \<noteq> 0 \<longrightarrow> node_ok p (hd (L @ [0]))"
    using inv_node_ok [OF inv] by (intro hd_ok) blast
  have nz: "(hd (L @ [0]) \<noteq> 0) = (L \<noteq> [])"
    using inv_nonzero [OF inv] by (intro hd_nonzero) blast
  show ?thesis
    unfolding First_def NewIterator_def
    by (simp add: ix fill_at [OF ok] nz it_at_def)
qed

lemma Next_correct:
  assumes inv: "sl_inv p L" and L: "L = A @ b # B"
  shows "Next p (it_at p b) = Some (Inr (B \<noteq> [], it_at p (hd (B @ [0]))))"
proof -
  have bok: "node_ok p b" using inv_node_ok [OF inv] L by simp
  then have b0: "b \<noteq> 0" by (simp add: node_ok_def layout_defs)
  have "0 \<le> b + nNext \<and> b + nNext < int (length (nodeData p))"
    using bok by (simp add: node_ok_def layout_defs)
  then have ix: "ixg (nodeData p) (b + nNext) = Inr (hd (B @ [0]))"
    using node_next [OF inv L] by (simp add: ixg_def nxt_def)
  have ok: "hd (B @ [0]) \<noteq> 0 \<longrightarrow> node_ok p (hd (B @ [0]))"
    using inv_node_ok [OF inv] L by (intro hd_ok) simp
  have nz: "(hd (B @ [0]) \<noteq> 0) = (B \<noteq> [])"
    using inv_nonzero [OF inv] L by (intro hd_nonzero) simp
  show ?thesis
    unfolding Next_def
    by (simp add: it_at_def b0 ix fill_at [OF ok] nz)
qed

lemma iter_collect_correct:
  assumes inv: "sl_inv p L"
  shows "L = A @ B \<Longrightarrow> iter_collect p (it_at p (hd (B @ [0]))) (B \<noteq> []) acc
           = Some (Inr (acc @ entries p B))"
proof (induction B arbitrary: A acc)
  case Nil
  then show ?case by (subst iter_collect.simps) (simp add: entries_def)
next
  case (Cons b B)
  have bok: "node_ok p b" using inv_node_ok [OF inv] Cons.prems by simp
  then have b0: "b \<noteq> 0" by (simp add: node_ok_def layout_defs)
  from Cons.prems have L': "L = (A @ [b]) @ B" by simp
  have kv: "Key (it_at p b) = keyOf p b" "Value (it_at p b) = valOf p b"
    using b0 by (simp_all add: Key_def Value_def it_at_def)
  have "iter_collect p (it_at p b) True acc
      = iter_collect p (it_at p (hd (B @ [0]))) (B \<noteq> []) (acc @ [(keyOf p b, valOf p b)])"
    by (subst iter_collect.simps)
       (simp add: Next_correct [OF inv Cons.prems] kv)
  with Cons.IH [OF L'] show ?case by (simp add: entries_def)
qed

lemma forward_iteration_correct:
  assumes inv: "sl_inv p L"
  shows "forward_iteration p = Some (Inr (entries p L))"
  unfolding forward_iteration_def
  using iter_collect_correct [OF inv, of "[]" L "[]"]
  by (simp add: First_correct [OF inv])

subsection \<open>Splicing a chain\<close>

lemma link_insert:
  assumes "map f (x0 # A @ B) = A @ B @ [z]" "distinct (x0 # A @ B)"
    and "f' new = hd (B @ [z])" "f' (last (x0 # A)) = new"
    and "\<forall>x\<in>set (x0 # A @ B). x \<noteq> last (x0 # A) \<longrightarrow> f' x = f x"
  shows "map f' (x0 # A @ [new] @ B) = A @ [new] @ B @ [z]"
  using assms
proof (induction A arbitrary: x0)
  case Nil
  then have fx: "f x0 = hd (B @ [z])" and fB: "map f B = tl (B @ [z])"
    by (cases B; simp)+
  from Nil have "map f' B = map f B" by auto
  with Nil fx fB show ?case by (cases B) auto
next
  case (Cons a A)
  from Cons.prems(1) have fx: "f x0 = a" and m: "map f (a # A @ B) = A @ B @ [z]" by simp_all
  from Cons.prems(2) have d: "distinct (a # A @ B)" and x0: "x0 \<notin> set (a # A @ B)" by auto
  have l: "last (x0 # a # A) = last (a # A)" by simp
  have "last (a # A) \<in> set (a # A)" by (rule last_in_set) simp
  with x0 have ne: "x0 \<noteq> last (a # A)" by auto
  with Cons.prems(5) l have f'x: "f' x0 = f x0" by simp
  have "map f' (a # A @ [new] @ B) = A @ [new] @ B @ [z]"
    using Cons.prems(3,4,5) l by (intro Cons.IH [OF m d]) auto
  with f'x fx show ?case by simp
qed

lemma link_delete:
  assumes "map f (x0 # A @ d # B) = A @ d # B @ [z]" "distinct (x0 # A @ d # B)"
    and "f' (last (x0 # A)) = f d"
    and "\<forall>x\<in>set (x0 # A @ B). x \<noteq> last (x0 # A) \<longrightarrow> f' x = f x"
  shows "map f' (x0 # A @ B) = A @ B @ [z]"
  using assms
proof (induction A arbitrary: x0)
  case Nil
  then have fd: "f d = hd (B @ [z])" and fB: "map f B = tl (B @ [z])"
    by (cases B; simp)+
  from Nil have "map f' B = map f B" by auto
  with Nil fd fB show ?case by (cases B) auto
next
  case (Cons a A)
  from Cons.prems(1) have fx: "f x0 = a" and m: "map f (a # A @ d # B) = A @ d # B @ [z]" by simp_all
  from Cons.prems(2) have d: "distinct (a # A @ d # B)" and x0: "x0 \<notin> set (a # A @ B)" by auto
  have l: "last (x0 # a # A) = last (a # A)" by simp
  have "last (a # A) \<in> set (a # A)" by (rule last_in_set) simp
  with x0 have ne: "x0 \<noteq> last (a # A)" by auto
  with Cons.prems(4) l have f'x: "f' x0 = f x0" by simp
  have "map f' (a # A @ B) = A @ B @ [z]"
    using Cons.prems(3,4) l by (intro Cons.IH [OF m d]) auto
  with f'x fx show ?case by simp
qed

subsection \<open>The loops that rewrite links\<close>

text \<open>The slot of the link of node \<open>n\<close> at level \<open>i\<close>.\<close>

lemma put_links_spec:
  assumes "\<forall>i<length ns. 0 \<le> slot (ns ! i) (i0 + int i) \<and> slot (ns ! i) (i0 + int i) < int (length nd)"
    and "\<forall>i<length ns. \<forall>j<length ns. i \<noteq> j \<longrightarrow> slot (ns ! i) (i0 + int i) \<noteq> slot (ns ! j) (i0 + int j)"
  shows "\<exists>nd'. put_links nd node i0 ns = Inr nd' \<and> length nd' = length nd + length ns
     \<and> (\<forall>t<length nd. nd' ! t = (if \<exists>i<length ns. int t = slot (ns ! i) (i0 + int i) then node else nd ! t))
     \<and> (\<forall>i<length ns. nd' ! (length nd + i) = nd ! nat (slot (ns ! i) (i0 + int i)))"
  using assms
proof (induction ns arbitrary: nd i0)
  case Nil
  then show ?case by simp
next
  case (Cons n ns)
  let ?m = "slot n i0"
  from Cons.prems(1) [rule_format, of 0] have m: "0 \<le> ?m" "?m < int (length nd)" by simp_all
  define nd1 where "nd1 = (nd @ [nd ! nat ?m])[nat ?m := node]"
  have len1: "length nd1 = length nd + 1" by (simp add: nd1_def)
  have s: "slot (ns ! i) (i0 + 1 + int i) = slot ((n # ns) ! Suc i) (i0 + int (Suc i))" for i
    by (simp add: ac_simps)
  have r1: "\<forall>i<length ns. 0 \<le> slot (ns ! i) (i0 + 1 + int i) \<and> slot (ns ! i) (i0 + 1 + int i) < int (length nd1)"
  proof (intro allI impI)
    fix i assume "i < length ns"
    then have "Suc i < length (n # ns)" by simp
    from Cons.prems(1) [rule_format, OF this] show "0 \<le> slot (ns ! i) (i0 + 1 + int i) \<and> slot (ns ! i) (i0 + 1 + int i) < int (length nd1)"
      unfolding s len1 by simp
  qed
  have r2: "\<forall>i<length ns. \<forall>j<length ns. i \<noteq> j \<longrightarrow> slot (ns ! i) (i0 + 1 + int i) \<noteq> slot (ns ! j) (i0 + 1 + int j)"
  proof (intro allI impI)
    fix i j assume "i < length ns" "j < length ns" "i \<noteq> j"
    then have "Suc i < length (n # ns)" "Suc j < length (n # ns)" "Suc i \<noteq> Suc j" by simp_all
    from Cons.prems(2) [rule_format, OF this] show "slot (ns ! i) (i0 + 1 + int i) \<noteq> slot (ns ! j) (i0 + 1 + int j)"
      unfolding s .
  qed
  from Cons.IH [OF r1 r2] obtain nd' where
    res: "put_links nd1 node (i0 + 1) ns = Inr nd'" and len': "length nd' = length nd1 + length ns"
    and old: "\<forall>t<length nd1. nd' ! t = (if \<exists>i<length ns. int t = slot (ns ! i) (i0 + 1 + int i) then node else nd1 ! t)"
    and new: "\<forall>i<length ns. nd' ! (length nd1 + i) = nd1 ! nat (slot (ns ! i) (i0 + 1 + int i))"
    by blast
  have ne0: "slot (ns ! i) (i0 + 1 + int i) \<noteq> ?m" if "i < length ns" for i
  proof -
    from that have "Suc i < length (n # ns)" "0 < length (n # ns)" "Suc i \<noteq> 0" by simp_all
    from Cons.prems(2) [rule_format, OF this] show ?thesis unfolding s by simp
  qed
  have lt: "slot (ns ! i) (i0 + 1 + int i) < int (length nd)" "0 \<le> slot (ns ! i) (i0 + 1 + int i)"
    if "i < length ns" for i
  proof -
    from that have "Suc i < length (n # ns)" by simp
    from Cons.prems(1) [rule_format, OF this]
    show "slot (ns ! i) (i0 + 1 + int i) < int (length nd)" "0 \<le> slot (ns ! i) (i0 + 1 + int i)"
      unfolding s by simp_all
  qed
  have run: "put_links nd node i0 (n # ns) = Inr nd'"
    using m res by (simp add: slot_def ixg_def upd_def nd1_def)
  moreover have "length nd' = length nd + length (n # ns)" using len' len1 by simp
  moreover have "\<forall>t<length nd. nd' ! t
      = (if \<exists>i<length (n # ns). int t = slot ((n # ns) ! i) (i0 + int i) then node else nd ! t)"
  proof (intro allI impI)
    fix t assume t: "t < length nd"
    then have t1: "t < length nd1" using len1 by simp
    have ex: "(\<exists>i<length (n # ns). int t = slot ((n # ns) ! i) (i0 + int i))
        = (int t = ?m \<or> (\<exists>i<length ns. int t = slot (ns ! i) (i0 + 1 + int i)))"
      unfolding s by (auto simp: less_Suc_eq_0_disj)
    have n1: "nd1 ! t = (if int t = ?m then node else nd ! t)"
      using t m by (auto simp: nd1_def nth_list_update nth_append)
    show "nd' ! t = (if \<exists>i<length (n # ns). int t = slot ((n # ns) ! i) (i0 + int i) then node else nd ! t)"
      unfolding ex using old [rule_format, OF t1] n1 by auto
  qed
  moreover have "\<forall>i<length (n # ns). nd' ! (length nd + i) = nd ! nat (slot ((n # ns) ! i) (i0 + int i))"
  proof (intro allI impI)
    fix i assume i: "i < length (n # ns)"
    show "nd' ! (length nd + i) = nd ! nat (slot ((n # ns) ! i) (i0 + int i))"
    proof (cases i)
      case 0
      have "length nd < length nd1" using len1 by simp
      from old [rule_format, OF this]
      have "nd' ! length nd = (if \<exists>i<length ns. int (length nd) = slot (ns ! i) (i0 + 1 + int i) then node else nd1 ! length nd)" .
      moreover have "\<not> (\<exists>i<length ns. int (length nd) = slot (ns ! i) (i0 + 1 + int i))"
        using lt(1) by force
      moreover have "nd1 ! length nd = nd ! nat ?m"
        using m by (simp add: nd1_def nth_list_update nth_append)
      ultimately show ?thesis using 0 by simp
    next
      case (Suc i')
      with i have i': "i' < length ns" by simp
      have "nd1 ! nat (slot (ns ! i') (i0 + 1 + int i')) = nd ! nat (slot (ns ! i') (i0 + 1 + int i'))"
        using lt [OF i'] ne0 [OF i'] m by (simp add: nd1_def nth_list_update nth_append)
      with new [rule_format, OF i'] show ?thesis
        unfolding Suc s [symmetric] using len1 by simp
    qed
  qed
  ultimately show ?case by blast
qed

lemma del_links_spec:
  assumes "\<forall>i<length ns. 0 \<le> slot (ns ! i) (i0 + int i) \<and> slot (ns ! i) (i0 + int i) < int (length nd)"
    and "\<forall>i<length ns. 0 \<le> slot d (i0 + int i) \<and> slot d (i0 + int i) < int (length nd)"
    and "\<forall>i<length ns. nd ! nat (slot (ns ! i) (i0 + int i)) = d"
    and "\<forall>i<length ns. \<forall>j<length ns. i \<noteq> j \<longrightarrow> slot (ns ! i) (i0 + int i) \<noteq> slot (ns ! j) (i0 + int j)"
    and "\<forall>i<length ns. \<forall>j<length ns. slot d (i0 + int i) \<noteq> slot (ns ! j) (i0 + int j)"
  shows "\<exists>nd'. del_links nd i0 ns = Inr nd' \<and> length nd' = length nd
     \<and> (\<forall>i<length ns. nd' ! nat (slot (ns ! i) (i0 + int i)) = nd ! nat (slot d (i0 + int i)))
     \<and> (\<forall>t<length nd. (\<forall>i<length ns. int t \<noteq> slot (ns ! i) (i0 + int i)) \<longrightarrow> nd' ! t = nd ! t)"
  using assms
proof (induction ns arbitrary: nd i0)
  case Nil
  then show ?case by simp
next
  case (Cons n ns)
  let ?m = "slot n i0"
  from Cons.prems(1) [rule_format, of 0] have m: "0 \<le> ?m" "?m < int (length nd)" by simp_all
  from Cons.prems(2) [rule_format, of 0] have dm: "0 \<le> slot d i0" "slot d i0 < int (length nd)" by simp_all
  from Cons.prems(3) [rule_format, of 0] have x: "nd ! nat ?m = d" by simp
  define nd1 where "nd1 = nd[nat ?m := nd ! nat (slot d i0)]"
  have len1: "length nd1 = length nd" by (simp add: nd1_def)
  have s: "slot (ns ! i) (i0 + 1 + int i) = slot ((n # ns) ! Suc i) (i0 + int (Suc i))" for i
    by (simp add: ac_simps)
  have sd: "slot d (i0 + 1 + int i) = slot d (i0 + int (Suc i))" for i
    by (simp add: ac_simps)
  have S: "Suc i < length (n # ns)" if "i < length ns" for i using that by simp
  have ne0: "slot (ns ! i) (i0 + 1 + int i) \<noteq> ?m" if "i < length ns" for i
    using Cons.prems(4) [rule_format, OF S [OF that], of 0] unfolding s by simp
  have ned: "slot d (i0 + 1 + int i) \<noteq> ?m" if "i < length ns" for i
    using Cons.prems(5) [rule_format, OF S [OF that], of 0] unfolding sd by simp
  have rng: "0 \<le> slot (ns ! i) (i0 + 1 + int i)" "slot (ns ! i) (i0 + 1 + int i) < int (length nd)"
    "0 \<le> slot d (i0 + 1 + int i)" "slot d (i0 + 1 + int i) < int (length nd)"
    if "i < length ns" for i
    using Cons.prems(1) [rule_format, OF S [OF that]] Cons.prems(2) [rule_format, OF S [OF that]]
    unfolding s sd by simp_all
  have keep: "nd1 ! nat u = nd ! nat u" if "u \<noteq> ?m" "0 \<le> u" for u
    using that m by (simp add: nd1_def nth_list_update)
  have r1: "\<forall>i<length ns. 0 \<le> slot (ns ! i) (i0 + 1 + int i) \<and> slot (ns ! i) (i0 + 1 + int i) < int (length nd1)"
    using rng len1 by simp
  have r2: "\<forall>i<length ns. 0 \<le> slot d (i0 + 1 + int i) \<and> slot d (i0 + 1 + int i) < int (length nd1)"
    using rng len1 by simp
  have r3: "\<forall>i<length ns. nd1 ! nat (slot (ns ! i) (i0 + 1 + int i)) = d"
  proof (intro allI impI)
    fix i assume i: "i < length ns"
    from Cons.prems(3) [rule_format, OF S [OF i]] keep [OF ne0 [OF i] rng(1) [OF i]]
    show "nd1 ! nat (slot (ns ! i) (i0 + 1 + int i)) = d" unfolding s by simp
  qed
  have r4: "\<forall>i<length ns. \<forall>j<length ns. i \<noteq> j \<longrightarrow> slot (ns ! i) (i0 + 1 + int i) \<noteq> slot (ns ! j) (i0 + 1 + int j)"
  proof (intro allI impI)
    fix i j assume "i < length ns" "j < length ns" "i \<noteq> j"
    then have "Suc i < length (n # ns)" "Suc j < length (n # ns)" "Suc i \<noteq> Suc j" by simp_all
    from Cons.prems(4) [rule_format, OF this] show "slot (ns ! i) (i0 + 1 + int i) \<noteq> slot (ns ! j) (i0 + 1 + int j)"
      unfolding s .
  qed
  have r5: "\<forall>i<length ns. \<forall>j<length ns. slot d (i0 + 1 + int i) \<noteq> slot (ns ! j) (i0 + 1 + int j)"
  proof (intro allI impI)
    fix i j assume "i < length ns" "j < length ns"
    from Cons.prems(5) [rule_format, OF S [OF this(1)] S [OF this(2)]]
    show "slot d (i0 + 1 + int i) \<noteq> slot (ns ! j) (i0 + 1 + int j)" unfolding s sd .
  qed
  from Cons.IH [OF r1 r2 r3 r4 r5] obtain nd' where
    res: "del_links nd1 (i0 + 1) ns = Inr nd'" and len': "length nd' = length nd1"
    and upd': "\<forall>i<length ns. nd' ! nat (slot (ns ! i) (i0 + 1 + int i)) = nd1 ! nat (slot d (i0 + 1 + int i))"
    and fr: "\<forall>t<length nd1. (\<forall>i<length ns. int t \<noteq> slot (ns ! i) (i0 + 1 + int i)) \<longrightarrow> nd' ! t = nd1 ! t"
    by blast
  have "0 \<le> d + nNext + i0" "d + nNext + i0 < int (length nd)" using dm by (simp_all add: slot_def)
  then have run: "del_links nd i0 (n # ns) = Inr nd'"
    using m x res by (simp add: slot_def ixg_def upd_def nd1_def)
  moreover have "length nd' = length nd" using len' len1 by simp
  moreover have "\<forall>i<length (n # ns). nd' ! nat (slot ((n # ns) ! i) (i0 + int i)) = nd ! nat (slot d (i0 + int i))"
  proof (intro allI impI)
    fix i assume i: "i < length (n # ns)"
    show "nd' ! nat (slot ((n # ns) ! i) (i0 + int i)) = nd ! nat (slot d (i0 + int i))"
    proof (cases i)
      case 0
      have "nat ?m < length nd1" using m len1 by simp
      moreover have "\<forall>i<length ns. int (nat ?m) \<noteq> slot (ns ! i) (i0 + 1 + int i)"
        using ne0 m by force
      ultimately have "nd' ! nat ?m = nd1 ! nat ?m" using fr by blast
      also have "\<dots> = nd ! nat (slot d i0)" using m by (simp add: nd1_def)
      finally show ?thesis using 0 by simp
    next
      case (Suc i')
      with i have i': "i' < length ns" by simp
      from upd' [rule_format, OF i'] keep [OF ned [OF i'] rng(3) [OF i']]
      show ?thesis unfolding Suc s [symmetric] sd [symmetric] by simp
    qed
  qed
  moreover have "\<forall>t<length nd. (\<forall>i<length (n # ns). int t \<noteq> slot ((n # ns) ! i) (i0 + int i)) \<longrightarrow> nd' ! t = nd ! t"
  proof (intro allI impI)
    fix t assume t: "t < length nd" and no: "\<forall>i<length (n # ns). int t \<noteq> slot ((n # ns) ! i) (i0 + int i)"
    from no [rule_format, of 0] have tm: "int t \<noteq> ?m" by simp
    have "\<forall>i<length ns. int t \<noteq> slot (ns ! i) (i0 + 1 + int i)"
      using no [rule_format, OF S] unfolding s by blast
    with fr t len1 have "nd' ! t = nd1 ! t" by simp
    also have "\<dots> = nd ! t" using keep [of "int t"] tm by simp
    finally show "nd' ! t = nd ! t" .
  qed
  ultimately show ?case by blast
qed

subsection \<open>The comparer\<close>

lemma lin_eq: "lin_cmp c \<Longrightarrow> (c a b = 0) = (a = b)"
  by (simp add: lin_cmp_def)

lemma lin_irrefl: "lin_cmp c \<Longrightarrow> \<not> c a a < 0"
  using lin_eq [of c a a] by simp

lemma lin_flip: "lin_cmp c \<Longrightarrow> (c a b < 0) = (0 < c b a)"
  by (simp add: lin_cmp_def)

lemma lin_trans: "lin_cmp c \<Longrightarrow> c a b < 0 \<Longrightarrow> c b d < 0 \<Longrightarrow> c a d < 0"
  unfolding lin_cmp_def by blast

lemma lin_total: "lin_cmp c \<Longrightarrow> a \<noteq> b \<Longrightarrow> \<not> c a b < 0 \<Longrightarrow> c b a < 0"
  using lin_eq [of c a b] lin_flip [of c b a] by auto

subsection \<open>Regions of nodes do not overlap\<close>

lemma inv_hgt0: "sl_inv p L \<Longrightarrow> hgt p 0 = 12"
  by (simp add: sl_inv_def tMaxHeight_def)

lemma region:
  assumes inv: "sl_inv p L" and x: "x \<in> set (0 # L)" and y: "y \<in> set (0 # L)" and xy: "x < y"
  shows "x + nNext + hgt p x \<le> y"
proof (cases "x = 0")
  case True
  with xy y have "y \<in> set L" by auto
  from inv_node_ok [OF inv this] True inv_hgt0 [OF inv] show ?thesis
    by (simp add: node_ok_def layout_defs)
next
  case False
  with x have xL: "x \<in> set L" by simp
  from inv_node_ok [OF inv this] xy have "y \<noteq> 0" by (auto simp: node_ok_def layout_defs)
  with y have "y \<in> set L" by simp
  with inv xL xy show ?thesis unfolding sl_inv_def by blast
qed

lemma node_nonneg: "sl_inv p L \<Longrightarrow> x \<in> set (0 # L) \<Longrightarrow> 0 \<le> x"
  by (auto dest!: inv_node_ok simp: node_ok_def layout_defs)

lemma slots_distinct:
  assumes inv: "sl_inv p L" and x: "x \<in> set (0 # L)" and y: "y \<in> set (0 # L)"
    and i: "0 \<le> i" "i < hgt p x" and j: "0 \<le> j" "j < hgt p y"
    and eq: "slot x i = slot y j"
  shows "x = y \<and> i = j"
proof -
  have "\<not> x < y" using region [OF inv x y] i j eq by (auto simp: slot_def layout_defs)
  moreover have "\<not> y < x" using region [OF inv y x] i j eq by (auto simp: slot_def layout_defs)
  ultimately have "x = y" by simp
  with eq show ?thesis by (simp add: slot_def)
qed

lemma header_not_slot:
  assumes inv: "sl_inv p L" and x: "x \<in> set (0 # L)" and y: "y \<in> set (0 # L)"
    and t: "0 \<le> t" "t < 4" and j: "0 \<le> j" "j < hgt p y"
  shows "x + t \<noteq> slot y j"
proof
  assume eq: "x + t = slot y j"
  have hx: "0 \<le> hgt p x"
  proof (cases "x = 0")
    case True then show ?thesis using inv_hgt0 [OF inv] by simp
  next
    case False
    with x have "x \<in> set L" by simp
    from inv_node_ok [OF inv this] show ?thesis by (simp add: node_ok_def)
  qed
  have "\<not> x < y" using region [OF inv x y] t j eq hx by (auto simp: slot_def layout_defs)
  moreover have "\<not> y < x" using region [OF inv y x] t j eq by (auto simp: slot_def layout_defs)
  ultimately have "x = y" by simp
  with eq t j show False by (simp add: slot_def layout_defs)
qed

lemma header_in_range:
  assumes inv: "sl_inv p L" and x: "x \<in> set (0 # L)" and t: "0 \<le> t" "t < 4"
  shows "0 \<le> x + t \<and> x + t < int (length (nodeData p))"
proof (cases "x = 0")
  case True
  with inv t show ?thesis by (simp add: sl_inv_def layout_defs)
next
  case False
  with x have "x \<in> set L" by simp
  from inv_node_ok [OF inv this] t show ?thesis by (simp add: node_ok_def layout_defs)
qed

lemma level_mem:
  assumes inv: "sl_inv p L" and x: "x \<in> set (0 # level p L h)" and h: "h < 12"
  shows "x \<in> set (0 # L) \<and> h < hgt p x"
  using x h inv_hgt0 [OF inv] by (auto simp: level_def)

lemma stop_node_props:
  assumes inv: "sl_inv p L" and h: "h < 12"
  shows "stop_node p L k h \<in> set (0 # L)" "h < hgt p (stop_node p L k h)"
    "stop_node p L k h = 0 \<or> below p k (stop_node p L k h)"
proof -
  have m: "stop_node p L k h \<in> set (0 # filter (below p k) (level p L h))" by (rule stop_node_mem)
  then have "stop_node p L k h \<in> set (0 # level p L h)" by auto
  from level_mem [OF inv this h]
  show "stop_node p L k h \<in> set (0 # L)" "h < hgt p (stop_node p L k h)" by simp_all
  from m show "stop_node p L k h = 0 \<or> below p k (stop_node p L k h)" by auto
qed

lemma inv_distinct:
  assumes lin: "lin_cmp (db_cmp p)" and inv: "sl_inv p L"
  shows "distinct (0 # L)"
proof -
  have irr: "\<not> key_lt p x x" for x using lin_irrefl [OF lin] by (simp add: key_lt_def)
  have "sorted_wrt (key_lt p) M \<Longrightarrow> distinct M" for M
  proof (induction M)
    case Nil then show ?case by simp
  next
    case (Cons a M) then show ?case using irr by auto
  qed
  with inv_sorted [OF inv] inv_nonzero [OF inv] show ?thesis by auto
qed

lemma key_length: "node_ok p x \<Longrightarrow> int (length (keyOf p x)) = keyLenOf p x"
  by (auto simp: node_ok_def keyOf_def)

lemma val_length: "node_ok p x \<Longrightarrow> int (length (valOf p x)) = valLenOf p x"
  by (auto simp: node_ok_def valOf_def)

lemma take_drop_append: "m + n \<le> length xs \<Longrightarrow> take n (drop m (xs @ ys)) = take n (drop m xs)"
  by simp

text \<open>A state that keeps the header of a node and only appends to the key/value buffer
  keeps the key and the value of the node.\<close>

lemma node_kept:
  assumes ok: "node_ok p x"
    and hd: "\<forall>t. 0 \<le> t \<and> t < 4 \<longrightarrow> nodeData p' ! nat (x + t) = nodeData p ! nat (x + t)"
    and kv: "kvData p' = kvData p @ ext"
    and len: "length (nodeData p) \<le> length (nodeData p')" and mh: "maxHeight p \<le> maxHeight p'"
  shows "hgt p' x = hgt p x" "keyLenOf p' x = keyLenOf p x" "valLenOf p' x = valLenOf p x"
    "keyOf p' x = keyOf p x" "valOf p' x = valOf p x" "node_ok p' x"
proof -
  from hd [rule_format, of 0] hd [rule_format, of 1] hd [rule_format, of 2] hd [rule_format, of 3]
  have f: "nodeData p' ! nat x = nodeData p ! nat x" "keyLenOf p' x = keyLenOf p x"
    "valLenOf p' x = valLenOf p x" "hgt p' x = hgt p x"
    by (simp_all add: keyLenOf_def valLenOf_def hgt_def layout_defs)
  then show "hgt p' x = hgt p x" "keyLenOf p' x = keyLenOf p x" "valLenOf p' x = valLenOf p x"
    by simp_all
  from ok have a: "nat (nodeData p ! nat x) + nat (keyLenOf p x) \<le> length (kvData p)"
    and b: "nat (nodeData p ! nat x + keyLenOf p x) + nat (valLenOf p x) \<le> length (kvData p)"
    unfolding node_ok_def by linarith+
  show "keyOf p' x = keyOf p x"
    unfolding keyOf_def f kv by (rule take_drop_append [OF a])
  show "valOf p' x = valOf p x"
    unfolding valOf_def f kv by (rule take_drop_append [OF b])
  from ok len mh show "node_ok p' x"
    unfolding node_ok_def f kv by simp
qed

subsection \<open>Levels of sublists\<close>

lemma level_filter: "level p (filter Q L) h = filter Q (level p L h)"
  by (simp add: level_def conj_commute)

lemma level_cong: "\<forall>x\<in>set L. hgt p' x = hgt p x \<Longrightarrow> level p' L h = level p L h"
  unfolding level_def by (rule filter_cong) simp_all

lemma sum_list_remove:
  fixes f :: "int \<Rightarrow> int"
  assumes "distinct L" "d \<in> set L"
  shows "(\<Sum>x\<leftarrow>L. f x) = f d + (\<Sum>x\<leftarrow>filter (\<lambda>x. x \<noteq> d) L. f x)"
    and "length L = Suc (length (filter (\<lambda>x. x \<noteq> d) L))"
  using assms
proof (induction L)
  case Nil
  case 1 then show ?case by simp
  case 2 then show ?case by simp
next
  case (Cons a L)
  case 1
  show ?case
  proof (cases "a = d")
    case True
    with 1 have "d \<notin> set L" by simp
    then have "filter (\<lambda>x. x \<noteq> d) L = L" by (auto simp: filter_id_conv)
    with True show ?thesis by simp
  next
    case False
    with 1 Cons.IH(1) show ?thesis by simp
  qed
  case 2
  show ?case
  proof (cases "a = d")
    case True
    with 2 have "d \<notin> set L" by simp
    then have "filter (\<lambda>x. x \<noteq> d) L = L" by (auto simp: filter_id_conv)
    with True show ?thesis by simp
  next
    case False
    with 2 Cons.IH(2) show ?thesis by simp
  qed
qed

lemma sum_list_cong_set:
  fixes f g :: "int \<Rightarrow> int"
  shows "\<forall>x\<in>set L. f x = g x \<Longrightarrow> (\<Sum>x\<leftarrow>L. f x) = (\<Sum>x\<leftarrow>L. g x)"
  by (induction L) simp_all

lemma ge_at_level:
  assumes inv: "sl_inv p L" and lin: "lin_cmp (db_cmp p)" and h: "0 \<le> h" "h < 12"
  shows "level p L h = filter (below p k) (level p L h) @ filter (\<lambda>x. \<not> below p k x) (level p L h)"
    and "stop_node p L k h = last (0 # filter (below p k) (level p L h))"
    and "ge_at p L k h = hd (filter (\<lambda>x. \<not> below p k x) (level p L h) @ [0])"
  using level_split(1) [OF inv lin, of k h] by (simp_all add: stop_node_def ge_at_def)

text \<open>The node found for an exact match heads the nodes not below the key at each of its levels.\<close>

lemma exact_heads_level:
  assumes inv: "sl_inv p L" and lin: "lin_cmp (db_cmp p)"
    and ex: "cmp_at p k (ge_node p L k) = 0" and h: "h < hgt p (ge_node p L k)"
  shows "\<exists>B. filter (\<lambda>x. \<not> below p k x) (level p L h) = ge_node p L k # B"
proof -
  let ?d = "ge_node p L k"
  from ex have d0: "?d \<noteq> 0" by (auto simp: cmp_at_def)
  obtain R where R: "filter (\<lambda>x. \<not> below p k x) L = ?d # R"
  proof (cases "filter (\<lambda>x. \<not> below p k x) L")
    case Nil
    with d0 show ?thesis by (simp add: ge_node_def)
  next
    case (Cons a R)
    with that show ?thesis by (simp add: ge_node_def)
  qed
  have "filter (\<lambda>x. \<not> below p k x) (level p L h) = level p (filter (\<lambda>x. \<not> below p k x) L) h"
    by (simp add: level_filter)
  also have "\<dots> = ?d # level p R h" unfolding R using h by (simp add: level_def)
  finally show ?thesis by blast
qed

lemma Delete_state:
  assumes lin: "lin_cmp (db_cmp p)" and inv: "sl_inv p L"
    and ex: "cmp_at p k (ge_node p L k) = 0"
    and len: "length nd' = length (nodeData p)"
    and upd: "\<forall>i<nat (hgt p (ge_node p L k)).
        nd' ! nat (slot (stop_node p L k (int i)) (int i)) = nodeData p ! nat (slot (ge_node p L k) (int i))"
    and fr: "\<forall>t<length (nodeData p).
        (\<forall>i<nat (hgt p (ge_node p L k)). int t \<noteq> slot (stop_node p L k (int i)) (int i))
          \<longrightarrow> nd' ! t = nodeData p ! t"
    and pn: "length pn = 12"
    and p': "p' = p\<lparr>prevNode := pn, nodeData := nd',
                   kvSize := kvSize p - (keyLenOf p (ge_node p L k) + valLenOf p (ge_node p L k)),
                   db_n := db_n p - 1\<rparr>"
  shows "sl_inv p' (filter (\<lambda>x. x \<noteq> ge_node p L k) L)"
    and "\<forall>x\<in>set L. keyOf p' x = keyOf p x \<and> valOf p' x = valOf p x"
proof -
  let ?d = "ge_node p L k"
  let ?L' = "filter (\<lambda>x. x \<noteq> ?d) L"
  let ?s = "\<lambda>h. stop_node p L k h"
  from ex have d0: "?d \<noteq> 0" by (auto simp: cmp_at_def)
  with ge_node_cases [OF inv, of k] have dL: "?d \<in> set L" by simp
  note dok = inv_node_ok [OF inv dL]
  then have hd: "1 \<le> hgt p ?d" "hgt p ?d \<le> 12"
    using inv by (simp_all add: node_ok_def sl_inv_def tMaxHeight_def)
  have nd: "nodeData p' = nd'" and kv: "kvData p' = kvData p @ []" and c: "db_cmp p' = db_cmp p"
    and mh: "maxHeight p' = maxHeight p"
    by (simp_all add: p')
  have sp: "?s (int i) \<in> set (0 # L)" "int i < hgt p (?s (int i))" if "i < nat (hgt p ?d)" for i
    using stop_node_props(1,2) [OF inv, of "int i" k] that hd by simp_all
  have hdr: "nd' ! nat (x + t) = nodeData p ! nat (x + t)"
    if "x \<in> set (0 # L)" "0 \<le> t" "t < 4" for x t
  proof -
    from header_in_range [OF inv that] have "nat (x + t) < length (nodeData p)" by linarith
    moreover have "\<forall>i<nat (hgt p ?d). int (nat (x + t)) \<noteq> slot (?s (int i)) (int i)"
    proof (intro allI impI)
      fix i assume i: "i < nat (hgt p ?d)"
      from header_not_slot [OF inv that(1) sp(1) [OF i] that(2,3) _ sp(2) [OF i]]
        header_in_range [OF inv that]
      show "int (nat (x + t)) \<noteq> slot (?s (int i)) (int i)" by simp
    qed
    ultimately show ?thesis using fr by blast
  qed
  have kept: "hgt p' x = hgt p x" "keyLenOf p' x = keyLenOf p x" "valLenOf p' x = valLenOf p x"
    "keyOf p' x = keyOf p x" "valOf p' x = valOf p x" "node_ok p' x"
    if "x \<in> set L" for x
  proof -
    have "\<forall>t. 0 \<le> t \<and> t < 4 \<longrightarrow> nodeData p' ! nat (x + t) = nodeData p ! nat (x + t)"
      using hdr [of x] that by (simp add: nd)
    from node_kept [OF inv_node_ok [OF inv that] this kv] len mh
    show "hgt p' x = hgt p x" "keyLenOf p' x = keyLenOf p x" "valLenOf p' x = valLenOf p x"
      "keyOf p' x = keyOf p x" "valOf p' x = valOf p x" "node_ok p' x"
      by (simp_all add: nd)
  qed
  from kept show "\<forall>x\<in>set L. keyOf p' x = keyOf p x \<and> valOf p' x = valOf p x" by blast
  have hgt0: "hgt p' 0 = hgt p 0"
    using hdr [of 0 3] by (simp add: hgt_def nd layout_defs)
  have hgtall: "hgt p' x = hgt p x" if "x \<in> set (0 # L)" for x
    using that kept(1) hgt0 by auto
  have slots: "nxt p' h x = (if h < hgt p ?d \<and> x = ?s h then nxt p h ?d else nxt p h x)"
    if x: "x \<in> set (0 # L)" and h: "0 \<le> h" "h < hgt p x" for x h
  proof (cases "h < hgt p ?d \<and> x = ?s h")
    case True
    with h have "nat h < nat (hgt p ?d)" by simp
    from upd [rule_format, OF this] True h show ?thesis
      by (simp add: nxt_def nd slot_def)
  next
    case False
    have rng: "0 \<le> slot x h" "slot x h < int (length (nodeData p))"
    proof -
      have "x + nNext + hgt p x \<le> int (length (nodeData p))"
      proof (cases "x = 0")
        case True
        with inv show ?thesis by (simp add: sl_inv_def)
      next
        case False
        with x have "x \<in> set L" by simp
        from inv_node_ok [OF inv this] show ?thesis by (simp add: node_ok_def)
      qed
      with h node_nonneg [OF inv x]
      show "0 \<le> slot x h" "slot x h < int (length (nodeData p))"
        by (simp_all add: slot_def layout_defs)
    qed
    have "\<forall>i<nat (hgt p ?d). int (nat (slot x h)) \<noteq> slot (?s (int i)) (int i)"
    proof (intro allI impI notI)
      fix i assume i: "i < nat (hgt p ?d)" and eq: "int (nat (slot x h)) = slot (?s (int i)) (int i)"
      with rng have "slot x h = slot (?s (int i)) (int i)" by simp
      from slots_distinct [OF inv x sp(1) [OF i] h _ sp(2) [OF i] this]
      have "x = ?s (int i)" "h = int i" by simp_all
      with i False show False by simp
    qed
    moreover from rng have "nat (slot x h) < length (nodeData p)" by linarith
    ultimately have "nd' ! nat (slot x h) = nodeData p ! nat (slot x h)" using fr by blast
    then have "nxt p' h x = nxt p h x" by (simp add: nxt_def nd slot_def)
    with False show ?thesis by (simp only: if_False)
  qed
  have lev: "level p' ?L' h = filter (\<lambda>x. x \<noteq> ?d) (level p L h)" for h
  proof -
    have "level p' ?L' h = level p ?L' h" by (rule level_cong) (simp add: kept(1))
    then show ?thesis by (simp add: level_filter)
  qed
  have dist: "distinct (0 # L)" by (rule inv_distinct [OF lin inv])
  have links: "map (nxt p' h) (0 # level p' ?L' h) = level p' ?L' h @ [0]"
    if h: "0 \<le> h" "h < 12" for h
  proof -
    let ?X = "level p L h"
    let ?A = "filter (below p k) ?X"
    note iv = inv_links [OF inv h]
    have dX: "distinct (0 # ?X)" using dist by (simp add: level_def)
    have memX: "x \<in> set (0 # L) \<and> h < hgt p x" if "x \<in> set (0 # ?X)" for x
      using level_mem [OF inv that h(2)] .
    show ?thesis
    proof (cases "h < hgt p ?d")
      case True
      from exact_heads_level [OF inv lin ex True] obtain B
        where B: "filter (\<lambda>x. \<not> below p k x) ?X = ?d # B" by blast
      with ge_at_level(1) [OF inv lin h, of k] have X: "?X = ?A @ ?d # B" by simp
      have sA: "?s h = last (0 # ?A)" by (simp add: stop_node_def)
      have m: "map (nxt p h) (0 # ?A @ ?d # B) = ?A @ ?d # B @ [0]" using iv X by simp
      have dd: "distinct (0 # ?A @ ?d # B)" using dX X by simp
      have sm: "last (0 # ?A) \<in> set (0 # ?X)" using last_in_set [of "0 # ?A"] by auto
      have f1: "nxt p' h (last (0 # ?A)) = nxt p h ?d"
        using slots [of "last (0 # ?A)" h] memX [OF sm] h True sA by simp
      have f2: "\<forall>x\<in>set (0 # ?A @ B). x \<noteq> last (0 # ?A) \<longrightarrow> nxt p' h x = nxt p h x"
      proof (intro ballI impI)
        fix x assume x: "x \<in> set (0 # ?A @ B)" and ne: "x \<noteq> last (0 # ?A)"
        have "set (?d # B) \<subseteq> set ?X" unfolding B [symmetric] by simp
        with x have "x \<in> set (0 # ?X)" by auto
        from slots [of x h] memX [OF this] h ne sA show "nxt p' h x = nxt p h x" by simp
      qed
      from link_delete [OF m dd f1 f2] have "map (nxt p' h) (0 # ?A @ B) = ?A @ B @ [0]" .
      moreover have "filter (\<lambda>x. x \<noteq> ?d) ?X = ?A @ B"
      proof -
        from dd have "?d \<notin> set ?A" "?d \<notin> set B" by auto
        then have "filter (\<lambda>x. x \<noteq> ?d) ?A = ?A" "filter (\<lambda>x. x \<noteq> ?d) B = B"
          unfolding filter_id_conv by blast+
        then have "filter (\<lambda>x. x \<noteq> ?d) (?A @ ?d # B) = ?A @ B"
          by (simp only: filter_append filter.simps) simp
        then show ?thesis using X by simp
      qed
      ultimately show ?thesis by (simp add: lev)
    next
      case False
      then have "?d \<notin> set ?X" by (simp add: level_def)
      then have e: "filter (\<lambda>x. x \<noteq> ?d) ?X = ?X" by (auto simp: filter_id_conv)
      have "map (nxt p' h) (0 # ?X) = map (nxt p h) (0 # ?X)"
      proof (rule map_cong [OF refl])
        fix x assume "x \<in> set (0 # ?X)"
        from slots [of x h] memX [OF this] h False show "nxt p' h x = nxt p h x" by simp
      qed
      with iv show ?thesis by (simp add: lev e)
    qed
  qed
  have sorted: "sorted_wrt (key_lt p') ?L'"
  proof -
    have s0: "sorted_wrt (key_lt p) ?L'" by (intro sorted_wrt_filter inv_sorted [OF inv])
    show ?thesis
    proof (rule sorted_wrt_mono_rel [OF _ s0])
      fix x y assume "x \<in> set ?L'" "y \<in> set ?L'" "key_lt p x y"
      then show "key_lt p' x y" using kept(4) by (simp add: key_lt_def c)
    qed
  qed
  have cnt: "db_n p' = int (length ?L')"
    using sum_list_remove(2) [OF _ dL, of ] dist inv by (simp add: p' sl_inv_def)
  have sz: "kvSize p' = (\<Sum>x\<leftarrow>?L'. keyLenOf p' x + valLenOf p' x)"
  proof -
    have "(\<Sum>x\<leftarrow>?L'. keyLenOf p' x + valLenOf p' x) = (\<Sum>x\<leftarrow>?L'. keyLenOf p x + valLenOf p x)"
      by (rule sum_list_cong_set) (simp add: kept(2,3))
    moreover have "(\<Sum>x\<leftarrow>L. keyLenOf p x + valLenOf p x)
        = (keyLenOf p ?d + valLenOf p ?d) + (\<Sum>x\<leftarrow>?L'. keyLenOf p x + valLenOf p x)"
      using sum_list_remove(1) [OF _ dL, of "\<lambda>x. keyLenOf p x + valLenOf p x"] dist by simp
    ultimately show ?thesis using inv by (simp add: p' sl_inv_def)
  qed
  have reg: "\<forall>x\<in>set ?L'. \<forall>y\<in>set ?L'. x < y \<longrightarrow> x + nNext + hgt p' x \<le> y"
  proof (intro ballI impI)
    fix x y assume "x \<in> set ?L'" "y \<in> set ?L'" "x < y"
    then have "x \<in> set (0 # L)" "y \<in> set (0 # L)" by simp_all
    from region [OF inv this \<open>x < y\<close>] kept(1) [of x] \<open>x \<in> set ?L'\<close>
    show "x + nNext + hgt p' x \<le> y" by simp
  qed
  show "sl_inv p' ?L'"
    unfolding sl_inv_def
  proof (intro conjI)
    show "length (prevNode p') = 12" by (simp add: p' pn)
    show "nNext + tMaxHeight \<le> int (length (nodeData p'))" using inv len by (simp add: nd sl_inv_def)
    show "hgt p' 0 = tMaxHeight" using hgt0 inv by (simp add: sl_inv_def)
    show "1 \<le> maxHeight p'" "maxHeight p' \<le> tMaxHeight" using inv by (simp_all add: mh sl_inv_def)
    show "\<forall>x\<in>set ?L'. node_ok p' x" using kept(6) by simp
    show "\<forall>x\<in>set ?L'. \<forall>y\<in>set ?L'. x < y \<longrightarrow> x + nNext + hgt p' x \<le> y" by (rule reg)
    show "sorted_wrt (key_lt p') ?L'" by (rule sorted)
    show "\<forall>h. 0 \<le> h \<and> h < tMaxHeight \<longrightarrow> map (nxt p' h) (0 # level p' ?L' h) = level p' ?L' h @ [0]"
      using links by (simp add: tMaxHeight_def)
    show "db_n p' = int (length ?L')" by (rule cnt)
    show "kvSize p' = (\<Sum>x\<leftarrow>?L'. keyLenOf p' x + valLenOf p' x)" by (rule sz)
  qed
qed

lemma stop_slot_range:
  assumes inv: "sl_inv p L" and h: "0 \<le> h" "h < 12"
  shows "0 \<le> slot (stop_node p L k h) h" "slot (stop_node p L k h) h < int (length (nodeData p))"
proof -
  have "stop_node p L k h \<in> set (0 # level p L h)" using stop_node_mem [of p L k h] by auto
  from slot_in_range [OF inv this h]
  show "0 \<le> slot (stop_node p L k h) h" "slot (stop_node p L k h) h < int (length (nodeData p))"
    by (simp_all add: slot_def)
qed

lemma stop_slots_distinct:
  assumes inv: "sl_inv p L" and i: "0 \<le> i" "i < 12" and j: "0 \<le> j" "j < 12" and ne: "i \<noteq> j"
  shows "slot (stop_node p L k i) i \<noteq> slot (stop_node p L k j) j"
  using slots_distinct [OF inv stop_node_props(1) [OF inv i(2)] stop_node_props(1) [OF inv j(2)]
      i(1) stop_node_props(2) [OF inv i(2)] j(1) stop_node_props(2) [OF inv j(2)], of k k] ne
  by blast

lemma Delete_correct:
  assumes lin: "lin_cmp (db_cmp p)" and inv: "sl_inv p L"
  shows "\<exists>p'. Delete p k = Some (Inr (if cmp_at p k (ge_node p L k) = 0 then None else Some ErrNotFound, p'))
     \<and> sl_inv p' (if cmp_at p k (ge_node p L k) = 0 then filter (\<lambda>x. x \<noteq> ge_node p L k) L else L)
     \<and> (\<forall>x\<in>set L. keyOf p' x = keyOf p x \<and> valOf p' x = valOf p x)
     \<and> db_cmp p' = db_cmp p \<and> rndSrc p' = rndSrc p \<and> rndPos p' = rndPos p \<and> growCap p' = growCap p
     \<and> kvData p' = kvData p \<and> kvCap p' = kvCap p \<and> maxHeight p' = maxHeight p
     \<and> (cmp_at p k (ge_node p L k) = 0 \<longrightarrow>
           kvSize p' = kvSize p - (keyLenOf p (ge_node p L k) + valLenOf p (ge_node p L k))
           \<and> db_n p' = db_n p - 1)
     \<and> (cmp_at p k (ge_node p L k) \<noteq> 0 \<longrightarrow>
           kvSize p' = kvSize p \<and> db_n p' = db_n p \<and> nodeData p' = nodeData p)"
proof -
  let ?d = "ge_node p L k"
  let ?s = "\<lambda>h. stop_node p L k h"
  from findGE_correct [OF lin inv, of k True] obtain pn where
    f: "findGE p k True = Some (Inr ((?d, cmp_at p k ?d = 0), p\<lparr>prevNode := pn\<rparr>))"
    and pn: "length pn = 12" "\<forall>j. int j < maxHeight p \<longrightarrow> pn ! j = ?s (int j)"
    by auto
  show ?thesis
  proof (cases "cmp_at p k ?d = 0")
    case False
    have "sl_inv (p\<lparr>prevNode := pn\<rparr>) L" by (rule sl_inv_prevNode [OF inv pn(1)])
    with False f show ?thesis by (simp add: Delete_def)
  next
    case True
    then have d0: "?d \<noteq> 0" by (auto simp: cmp_at_def)
    with ge_node_cases [OF inv, of k] have dL: "?d \<in> set L" "\<not> below p k ?d" by simp_all
    note dok = inv_node_ok [OF inv dL(1)]
    then have hd: "1 \<le> hgt p ?d" "hgt p ?d \<le> maxHeight p" "maxHeight p \<le> 12"
      using inv by (simp_all add: node_ok_def sl_inv_def tMaxHeight_def)
    define prevs where "prevs = take (nat (hgt p ?d)) pn"
    have lp: "length prevs = nat (hgt p ?d)" using hd pn(1) by (simp add: prevs_def)
    have pi: "prevs ! i = ?s (int i)" if "i < length prevs" for i
    proof -
      from that lp hd have "int i < maxHeight p" by linarith
      with pn(2) have "pn ! i = ?s (int i)" by simp
      with that show ?thesis by (simp add: prevs_def)
    qed
    have ib: "0 \<le> int i" "int i < 12" "int i < hgt p ?d" if "i < length prevs" for i
      using that lp hd by simp_all
    have c1: "\<forall>i<length prevs. 0 \<le> slot (prevs ! i) (0 + int i)
        \<and> slot (prevs ! i) (0 + int i) < int (length (nodeData p))"
      using stop_slot_range [OF inv ib(1,2)] pi by simp
    have c2: "\<forall>i<length prevs. 0 \<le> slot ?d (0 + int i) \<and> slot ?d (0 + int i) < int (length (nodeData p))"
    proof (intro allI impI)
      fix i assume "i < length prevs"
      from ib [OF this] dok show "0 \<le> slot ?d (0 + int i) \<and> slot ?d (0 + int i) < int (length (nodeData p))"
        by (simp add: node_ok_def slot_def layout_defs)
    qed
    have c3: "\<forall>i<length prevs. nodeData p ! nat (slot (prevs ! i) (0 + int i)) = ?d"
    proof (intro allI impI)
      fix i assume i: "i < length prevs"
      from exact_heads_level [OF inv lin True ib(3) [OF i]] obtain B
        where "filter (\<lambda>x. \<not> below p k x) (level p L (int i)) = ?d # B" by blast
      then have "ge_at p L k (int i) = ?d" by (simp add: ge_at_def)
      with stop_next [OF inv lin ib(1,2) [OF i], of k] pi [OF i]
      show "nodeData p ! nat (slot (prevs ! i) (0 + int i)) = ?d"
        by (simp add: nxt_def slot_def)
    qed
    have c4: "\<forall>i<length prevs. \<forall>j<length prevs. i \<noteq> j \<longrightarrow>
        slot (prevs ! i) (0 + int i) \<noteq> slot (prevs ! j) (0 + int j)"
    proof (intro allI impI)
      fix i j assume ij: "i < length prevs" "j < length prevs" "i \<noteq> j"
      from stop_slots_distinct [OF inv ib(1,2) [OF ij(1)] ib(1,2) [OF ij(2)], of k] ij pi
      show "slot (prevs ! i) (0 + int i) \<noteq> slot (prevs ! j) (0 + int j)" by simp
    qed
    have c5: "\<forall>i<length prevs. \<forall>j<length prevs. slot ?d (0 + int i) \<noteq> slot (prevs ! j) (0 + int j)"
    proof (intro allI impI notI)
      fix i j assume ij: "i < length prevs" "j < length prevs"
        and eq: "slot ?d (0 + int i) = slot (prevs ! j) (0 + int j)"
      have dm: "?d \<in> set (0 # L)" using dL by simp
      from eq pi [OF ij(2)] have "slot ?d (int i) = slot (?s (int j)) (int j)" by simp
      from slots_distinct [OF inv dm stop_node_props(1) [OF inv ib(2) [OF ij(2)]] ib(1) [OF ij(1)]
          ib(3) [OF ij(1)] ib(1) [OF ij(2)] stop_node_props(2) [OF inv ib(2) [OF ij(2)]] this]
      have "?d = ?s (int j)" by simp
      with stop_node_props(3) [OF inv ib(2) [OF ij(2)], of k] d0 dL(2) show False by simp
    qed
    from del_links_spec [OF c1 c2 c3 c4 c5] obtain nd' where
      run: "del_links (nodeData p) 0 prevs = Inr nd'" and len: "length nd' = length (nodeData p)"
      and upd0: "\<forall>i<length prevs. nd' ! nat (slot (prevs ! i) (0 + int i)) = nodeData p ! nat (slot ?d (0 + int i))"
      and fr0: "\<forall>t<length (nodeData p). (\<forall>i<length prevs. int t \<noteq> slot (prevs ! i) (0 + int i))
          \<longrightarrow> nd' ! t = nodeData p ! t"
      by blast
    have upd: "\<forall>i<nat (hgt p ?d). nd' ! nat (slot (?s (int i)) (int i)) = nodeData p ! nat (slot ?d (int i))"
      using upd0 pi lp by simp
    have fr: "\<forall>t<length (nodeData p). (\<forall>i<nat (hgt p ?d). int t \<noteq> slot (?s (int i)) (int i))
          \<longrightarrow> nd' ! t = nodeData p ! t"
      using fr0 pi lp by simp
    have hdr: "nd' ! nat (?d + t) = nodeData p ! nat (?d + t)" if t: "0 \<le> t" "t < 4" for t
    proof -
      have dm: "?d \<in> set (0 # L)" using dL by simp
      from header_in_range [OF inv dm t] have "nat (?d + t) < length (nodeData p)" by linarith
      moreover have "\<forall>i<nat (hgt p ?d). int (nat (?d + t)) \<noteq> slot (?s (int i)) (int i)"
      proof (intro allI impI)
        fix i assume "i < nat (hgt p ?d)"
        then have i: "i < length prevs" by (simp add: lp)
        from header_not_slot [OF inv dm stop_node_props(1) [OF inv ib(2) [OF i]] t ib(1) [OF i]
            stop_node_props(2) [OF inv ib(2) [OF i]], of k] header_in_range [OF inv dm t]
        show "int (nat (?d + t)) \<noteq> slot (?s (int i)) (int i)" by simp
      qed
      ultimately show ?thesis using fr by blast
    qed
    define p' where "p' = p\<lparr>prevNode := pn, nodeData := nd',
                   kvSize := kvSize p - (keyLenOf p ?d + valLenOf p ?d), db_n := db_n p - 1\<rparr>"
    note st = Delete_state [OF lin inv True len upd fr pn(1) p'_def]
    have sl: "slice pn 0 (hgt p ?d) = Inr prevs"
      using hd pn(1) by (simp add: slice_def prevs_def)
    have rng: "0 \<le> ?d + nKey" "?d + nKey < int (length nd')" "0 \<le> ?d + nVal" "?d + nVal < int (length nd')"
      using dok len by (simp_all add: node_ok_def layout_defs)
    have kl: "nd' ! nat (?d + nKey) = keyLenOf p ?d" "nd' ! nat (?d + nVal) = valLenOf p ?d"
      using hdr [of 1] hdr [of 2] by (simp_all add: keyLenOf_def valLenOf_def layout_defs)
    have ix: "ixg nd' (?d + nKey) = Inr (keyLenOf p ?d)" "ixg nd' (?d + nVal) = Inr (valLenOf p ?d)"
      using rng kl by (simp_all add: ixg_def)
    have "Delete p k = Some (Inr (None, p'))"
      unfolding Delete_def f
      by (simp add: True node_fields(4) [OF dok] sl run ix p'_def)
    with st True show ?thesis by (simp add: p'_def)
  qed
qed

subsection \<open>Overwriting a value\<close>

lemma headers_distinct:
  assumes inv: "sl_inv p L" and x: "x \<in> set (0 # L)" and y: "y \<in> set (0 # L)" and ne: "x \<noteq> y"
    and t: "0 \<le> t" "t < 4" and u: "0 \<le> u" "u < 4"
  shows "x + t \<noteq> y + u"
proof -
  have hg: "1 \<le> hgt p z" if "z \<in> set (0 # L)" for z
  proof (cases "z = 0")
    case True then show ?thesis using inv_hgt0 [OF inv] by simp
  next
    case False
    with that have "z \<in> set L" by simp
    from inv_node_ok [OF inv this] show ?thesis by (simp add: node_ok_def)
  qed
  from ne consider "x < y" | "y < x" by linarith
  then show ?thesis
  proof cases
    case 1
    from region [OF inv x y 1] hg [OF x] t u show ?thesis by (simp add: layout_defs)
  next
    case 2
    from region [OF inv y x 2] hg [OF y] t u show ?thesis by (simp add: layout_defs)
  qed
qed

lemma sl_inv_transfer:
  assumes inv: "sl_inv p L"
    and pl: "length (prevNode p') = 12" and nl: "nNext + tMaxHeight \<le> int (length (nodeData p'))"
    and mh: "1 \<le> maxHeight p'" "maxHeight p' \<le> tMaxHeight" and c: "db_cmp p' = db_cmp p"
    and hg: "\<forall>x\<in>set (0 # L). hgt p' x = hgt p x"
    and nx: "\<forall>x\<in>set (0 # L). \<forall>h. 0 \<le> h \<and> h < hgt p x \<longrightarrow> nxt p' h x = nxt p h x"
    and ky: "\<forall>x\<in>set L. keyOf p' x = keyOf p x \<and> node_ok p' x"
    and n: "db_n p' = db_n p" and sz: "kvSize p' = (\<Sum>x\<leftarrow>L. keyLenOf p' x + valLenOf p' x)"
  shows "sl_inv p' L"
  unfolding sl_inv_def
proof (intro conjI)
  show "length (prevNode p') = 12" by (rule pl)
  show "nNext + tMaxHeight \<le> int (length (nodeData p'))" by (rule nl)
  show "hgt p' 0 = tMaxHeight" using hg inv by (simp add: sl_inv_def)
  show "1 \<le> maxHeight p'" "maxHeight p' \<le> tMaxHeight" by (rule mh)+
  show "\<forall>x\<in>set L. node_ok p' x" using ky by simp
  show "\<forall>x\<in>set L. \<forall>y\<in>set L. x < y \<longrightarrow> x + nNext + hgt p' x \<le> y"
    using inv hg unfolding sl_inv_def by simp
  show "sorted_wrt (key_lt p') L"
  proof (rule sorted_wrt_mono_rel [OF _ inv_sorted [OF inv]])
    fix x y assume "x \<in> set L" "y \<in> set L" "key_lt p x y"
    then show "key_lt p' x y" using ky by (simp add: key_lt_def c)
  qed
  show "\<forall>h. 0 \<le> h \<and> h < tMaxHeight \<longrightarrow> map (nxt p' h) (0 # level p' L h) = level p' L h @ [0]"
  proof (intro allI impI)
    fix h assume h: "0 \<le> h \<and> h < tMaxHeight"
    then have h': "0 \<le> h" "h < 12" by (simp_all add: tMaxHeight_def)
    have lv: "level p' L h = level p L h" by (rule level_cong) (use hg in simp)
    have "map (nxt p' h) (0 # level p L h) = map (nxt p h) (0 # level p L h)"
    proof (rule map_cong [OF refl])
      fix x assume "x \<in> set (0 # level p L h)"
      from level_mem [OF inv this h'(2)] nx h'(1) show "nxt p' h x = nxt p h x" by blast
    qed
    with inv_links [OF inv h'] lv
    show "map (nxt p' h) (0 # level p' L h) = level p' L h @ [0]" by simp
  qed
  show "db_n p' = int (length L)" using n inv by (simp add: sl_inv_def)
  show "kvSize p' = (\<Sum>x\<leftarrow>L. keyLenOf p' x + valLenOf p' x)" by (rule sz)
qed

declare randHeight_loop.simps [simp del] raise_prev.simps [simp del] reset_loop.simps [simp del]

lemma kv_append_fields [simp]:
  "kvData (kv_append p xs) = kvData p @ xs"
  "nodeData (kv_append p xs) = nodeData p"
  "prevNode (kv_append p xs) = prevNode p"
  "maxHeight (kv_append p xs) = maxHeight p"
  "db_n (kv_append p xs) = db_n p"
  "kvSize (kv_append p xs) = kvSize p"
  "db_cmp (kv_append p xs) = db_cmp p"
  "rndSrc (kv_append p xs) = rndSrc p"
  "rndPos (kv_append p xs) = rndPos p"
  "growCap (kv_append p xs) = growCap p"
  by (simp_all add: kv_append_def)

lemma Put_exact_correct:
  assumes lin: "lin_cmp (db_cmp p)" and inv: "sl_inv p L"
    and ex: "cmp_at p k (ge_node p L k) = 0"
  shows "\<exists>p'. Put p k v = Some (Inr p') \<and> sl_inv p' L
     \<and> (\<forall>x\<in>set L. keyOf p' x = keyOf p x
            \<and> valOf p' x = (if x = ge_node p L k then v else valOf p x))
     \<and> db_cmp p' = db_cmp p \<and> rndSrc p' = rndSrc p \<and> rndPos p' = rndPos p
     \<and> growCap p' = growCap p \<and> maxHeight p' = maxHeight p"
proof -
  let ?d = "ge_node p L k"
  let ?nd = "nodeData p"
  let ?off = "int (length (kvData p))"
  from findGE_correct [OF lin inv, of k True] ex obtain pn where
    f: "findGE p k True = Some (Inr ((?d, True), p\<lparr>prevNode := pn\<rparr>))"
    and pn: "length pn = 12"
    by auto
  from ex have d0: "?d \<noteq> 0" by (auto simp: cmp_at_def)
  with ge_node_cases [OF inv, of k] have dL: "?d \<in> set L" by simp
  then have dm: "?d \<in> set (0 # L)" by simp
  note dok = inv_node_ok [OF inv dL]
  from ex d0 lin_eq [OF lin] have kd: "keyOf p ?d = k" by (simp add: cmp_at_def)
  with key_length [OF dok] have kl: "keyLenOf p ?d = int (length k)" by simp
  have r0: "0 \<le> ?d" "?d < int (length ?nd)" "0 \<le> ?d + nVal" "?d + nVal < int (length ?nd)"
    using dok by (simp_all add: node_ok_def layout_defs)
  define nd1 where "nd1 = ?nd[nat ?d := ?off]"
  define nd2 where "nd2 = nd1[nat (?d + nVal) := int (length v)]"
  define p' where "p' = (kv_append (kv_append (p\<lparr>prevNode := pn\<rparr>) k) v)
      \<lparr>nodeData := nd2, kvSize := kvSize p + (int (length v) - valLenOf p ?d)\<rparr>"
  have u1: "upd ?nd ?d ?off = Inr nd1" using r0 by (simp add: upd_def nd1_def)
  have m: "ixg nd1 (?d + nVal) = Inr (valLenOf p ?d)"
    using r0 by (simp add: ixg_def nd1_def valLenOf_def layout_defs)
  have u2: "upd nd1 (?d + nVal) (int (length v)) = Inr nd2"
    using r0 by (simp add: upd_def nd1_def nd2_def)
  have run: "Put p k v = Some (Inr p')"
    unfolding Put_def f by (simp add: put_exact_def Let_def u1 m u2 p'_def)
  have nd: "nodeData p' = nd2" and kv: "kvData p' = kvData p @ (k @ v)" and c: "db_cmp p' = db_cmp p"
    and mh: "maxHeight p' = maxHeight p" and len: "length nd2 = length ?nd"
    by (simp_all add: p'_def nd2_def nd1_def)
  have cell: "nd2 ! nat u = (if u = ?d + nVal then int (length v) else if u = ?d then ?off else ?nd ! nat u)"
    if "0 \<le> u" "u < int (length ?nd)" for u
    using that r0 by (auto simp: nd2_def nd1_def nth_list_update layout_defs)
  have hdr: "nd2 ! nat (x + t) = ?nd ! nat (x + t)"
    if "x \<in> set (0 # L)" "x \<noteq> ?d" "0 \<le> t" "t < 4" for x t
  proof -
    from headers_distinct [OF inv that(1) dm that(2,3,4), of 2]
      headers_distinct [OF inv that(1) dm that(2,3,4), of 0]
    have "x + t \<noteq> ?d + nVal" "x + t \<noteq> ?d" by (simp_all add: layout_defs)
    with cell [of "x + t"] header_in_range [OF inv that(1,3,4)] show ?thesis by simp
  qed
  have hdrd: "nd2 ! nat ?d = ?off" "nd2 ! nat (?d + nKey) = keyLenOf p ?d"
    "nd2 ! nat (?d + nVal) = int (length v)" "nd2 ! nat (?d + nHeight) = hgt p ?d"
    using cell [of ?d] cell [of "?d + nKey"] cell [of "?d + nVal"] cell [of "?d + nHeight"] dok
    by (simp_all add: node_ok_def layout_defs keyLenOf_def hgt_def)
  have kept: "hgt p' x = hgt p x" "keyLenOf p' x = keyLenOf p x" "valLenOf p' x = valLenOf p x"
    "keyOf p' x = keyOf p x" "valOf p' x = valOf p x" "node_ok p' x"
    if "x \<in> set L" "x \<noteq> ?d" for x
  proof -
    have "\<forall>t. 0 \<le> t \<and> t < 4 \<longrightarrow> nodeData p' ! nat (x + t) = nodeData p ! nat (x + t)"
      using hdr [of x] that by (simp add: nd)
    from node_kept [OF inv_node_ok [OF inv that(1)] this kv] len mh
    show "hgt p' x = hgt p x" "keyLenOf p' x = keyLenOf p x" "valLenOf p' x = valLenOf p x"
      "keyOf p' x = keyOf p x" "valOf p' x = valOf p x" "node_ok p' x"
      by (simp_all add: nd)
  qed
  have fd: "hgt p' ?d = hgt p ?d" "keyLenOf p' ?d = int (length k)" "valLenOf p' ?d = int (length v)"
    using hdrd kl by (simp_all add: hgt_def keyLenOf_def valLenOf_def nd)
  have kd': "keyOf p' ?d = k" "valOf p' ?d = v"
    using hdrd(1) by (simp_all add: keyOf_def valOf_def fd kv nd nat_add_distrib)
  have okd: "node_ok p' ?d"
    using dok hdrd(1) unfolding node_ok_def fd by (simp add: nd kv len mh)
  have hg0: "hgt p' 0 = hgt p 0"
    using hdr [of 0 3] d0 by (simp add: hgt_def nd layout_defs)
  have hg: "\<forall>x\<in>set (0 # L). hgt p' x = hgt p x"
  proof
    fix x assume "x \<in> set (0 # L)"
    then show "hgt p' x = hgt p x"
      using kept(1) [of x] fd(1) hg0 by (cases "x = ?d"; cases "x = 0") simp_all
  qed
  have nx: "\<forall>x\<in>set (0 # L). \<forall>h. 0 \<le> h \<and> h < hgt p x \<longrightarrow> nxt p' h x = nxt p h x"
  proof (intro ballI allI impI)
    fix x h assume x: "x \<in> set (0 # L)" and h: "0 \<le> h \<and> h < hgt p x"
    from header_not_slot [OF inv dm x, of 0 h] header_not_slot [OF inv dm x, of 2 h] h
    have ne: "slot x h \<noteq> ?d" "slot x h \<noteq> ?d + nVal" by (auto simp: layout_defs)
    have "x + nNext + hgt p x \<le> int (length ?nd)"
    proof (cases "x = 0")
      case True
      with inv show ?thesis by (simp add: sl_inv_def)
    next
      case False
      with x have "x \<in> set L" by simp
      from inv_node_ok [OF inv this] show ?thesis by (simp add: node_ok_def)
    qed
    with h node_nonneg [OF inv x] have "0 \<le> slot x h" "slot x h < int (length ?nd)"
      by (simp_all add: slot_def layout_defs)
    from cell [OF this] ne show "nxt p' h x = nxt p h x" by (simp add: nxt_def nd slot_def)
  qed
  have ky: "\<forall>x\<in>set L. keyOf p' x = keyOf p x \<and> node_ok p' x"
  proof
    fix x assume "x \<in> set L"
    then show "keyOf p' x = keyOf p x \<and> node_ok p' x"
      using kept(4,6) [of x] kd'(1) kd okd by (cases "x = ?d") simp_all
  qed
  have dist: "distinct (0 # L)" by (rule inv_distinct [OF lin inv])
  have sz: "kvSize p' = (\<Sum>x\<leftarrow>L. keyLenOf p' x + valLenOf p' x)"
  proof -
    let ?L' = "filter (\<lambda>x. x \<noteq> ?d) L"
    have "(\<Sum>x\<leftarrow>?L'. keyLenOf p' x + valLenOf p' x) = (\<Sum>x\<leftarrow>?L'. keyLenOf p x + valLenOf p x)"
      by (rule sum_list_cong_set) (simp add: kept(2,3))
    moreover have "(\<Sum>x\<leftarrow>L. keyLenOf p x + valLenOf p x)
        = (keyLenOf p ?d + valLenOf p ?d) + (\<Sum>x\<leftarrow>?L'. keyLenOf p x + valLenOf p x)"
      using sum_list_remove(1) [OF _ dL, of "\<lambda>x. keyLenOf p x + valLenOf p x"] dist by simp
    moreover have "(\<Sum>x\<leftarrow>L. keyLenOf p' x + valLenOf p' x)
        = (keyLenOf p' ?d + valLenOf p' ?d) + (\<Sum>x\<leftarrow>?L'. keyLenOf p' x + valLenOf p' x)"
      using sum_list_remove(1) [OF _ dL, of "\<lambda>x. keyLenOf p' x + valLenOf p' x"] dist by simp
    ultimately show ?thesis using inv kl fd by (simp add: p'_def sl_inv_def)
  qed
  have "sl_inv p' L"
    using inv by (intro sl_inv_transfer [OF inv _ _ _ _ c hg nx ky _ sz])
      (simp_all add: p'_def pn sl_inv_def nd2_def nd1_def)
  moreover have "\<forall>x\<in>set L. keyOf p' x = keyOf p x \<and> valOf p' x = (if x = ?d then v else valOf p x)"
  proof
    fix x assume "x \<in> set L"
    then show "keyOf p' x = keyOf p x \<and> valOf p' x = (if x = ?d then v else valOf p x)"
      using kept(4,5) [of x] kd' kd by (cases "x = ?d") simp_all
  qed
  ultimately show ?thesis using run c mh by (auto simp: p'_def)
qed

subsection \<open>The height of a new node\<close>

lemma randHeight_loop_range:
  "1 \<le> h \<Longrightarrow> h \<le> 12 \<Longrightarrow> 1 \<le> fst (randHeight_loop src pos h) \<and> fst (randHeight_loop src pos h) \<le> 12"
proof (induction src pos h rule: randHeight_loop.induct)
  case (1 src pos h)
  show ?case
  proof (cases "h < tMaxHeight \<and> src pos mod 4 = 0")
    case True
    with "1.prems" have b: "1 \<le> h + 1" "h + 1 \<le> 12" by (simp_all add: tMaxHeight_def)
    have eq: "randHeight_loop src pos h = randHeight_loop src (pos + 1) (h + 1)"
      using True by (subst randHeight_loop.simps) simp
    from "1.IH" [OF _ _ b] True show ?thesis unfolding eq by simp
  next
    case False
    have "fst (randHeight_loop src pos h) = h"
      using False by (subst randHeight_loop.simps) auto
    with "1.prems" show ?thesis by simp
  qed
qed

lemma randHeight_range:
  "\<exists>h pos. randHeight p = (h, p\<lparr>rndPos := pos\<rparr>) \<and> 1 \<le> h \<and> h \<le> 12"
proof -
  obtain h pos where r: "randHeight_loop (rndSrc p) (rndPos p) 1 = (h, pos)"
    by (cases "randHeight_loop (rndSrc p) (rndPos p) 1")
  with randHeight_loop_range [of 1 "rndSrc p" "rndPos p"] have "1 \<le> h \<and> h \<le> 12" by simp
  with r show ?thesis by (auto simp: randHeight_def)
qed

lemma raise_prev_spec:
  "0 \<le> i \<Longrightarrow> h \<le> int (length pn) \<Longrightarrow>
   \<exists>pn'. raise_prev pn i h = Inr pn' \<and> length pn' = length pn
     \<and> (\<forall>j<length pn. pn' ! j = (if i \<le> int j \<and> int j < h then 0 else pn ! j))"
proof (induction pn i h rule: raise_prev.induct)
  case (1 pn i h)
  show ?case
  proof (cases "i < h")
    case False
    then show ?thesis by (subst raise_prev.simps) auto
  next
    case True
    define pn1 where "pn1 = pn[nat i := 0]"
    have u: "upd pn i 0 = Inr pn1" using True "1.prems" by (simp add: upd_def pn1_def)
    have b: "0 \<le> i + 1" "h \<le> int (length pn1)" using "1.prems" by (simp_all add: pn1_def)
    from "1.IH" [OF True b] obtain pn' where
      r: "raise_prev pn1 (i + 1) h = Inr pn'" and l: "length pn' = length pn1"
      and e: "\<forall>j<length pn1. pn' ! j = (if i + 1 \<le> int j \<and> int j < h then 0 else pn1 ! j)"
      by blast
    have "raise_prev pn i h = Inr pn'"
      by (subst raise_prev.simps) (simp add: True u r)
    moreover have "length pn' = length pn" using l by (simp add: pn1_def)
    moreover have "\<forall>j<length pn. pn' ! j = (if i \<le> int j \<and> int j < h then 0 else pn ! j)"
    proof (intro allI impI)
      fix j assume j: "j < length pn"
      then have "j < length pn1" by (simp add: pn1_def)
      from e [rule_format, OF this] j True "1.prems"(1)
      show "pn' ! j = (if i \<le> int j \<and> int j < h then 0 else pn ! j)"
        by (auto simp: pn1_def nth_list_update)
    qed
    ultimately show ?thesis by blast
  qed
qed

lemma stop_node_empty_level:
  assumes inv: "sl_inv p L" and h: "maxHeight p \<le> h"
  shows "stop_node p L k h = 0"
proof -
  have "\<forall>x\<in>set L. \<not> h < hgt p x"
  proof
    fix x assume "x \<in> set L"
    from inv_node_ok [OF inv this] h show "\<not> h < hgt p x" by (simp add: node_ok_def)
  qed
  then have "level p L h = []" by (simp add: level_def filter_empty_conv)
  then show ?thesis by (simp add: stop_node_def)
qed

lemma Put_new_correct:
  assumes lin: "lin_cmp (db_cmp p)" and inv: "sl_inv p L"
    and nex: "cmp_at p k (ge_node p L k) \<noteq> 0"
  shows "\<exists>p' node. Put p k v = Some (Inr p') \<and> node \<notin> set (0 # L)
     \<and> sl_inv p' (filter (below p k) L @ node # filter (\<lambda>x. \<not> below p k x) L)
     \<and> keyOf p' node = k \<and> valOf p' node = v
     \<and> (\<forall>x\<in>set L. keyOf p' x = keyOf p x \<and> valOf p' x = valOf p x)
     \<and> db_cmp p' = db_cmp p \<and> rndSrc p' = rndSrc p \<and> growCap p' = growCap p"
proof -
  let ?nd = "nodeData p"
  let ?s = "\<lambda>h. stop_node p L k h"
  let ?off = "int (length (kvData p))"
  let ?Lk = "filter (below p k) L"
  let ?Rk = "filter (\<lambda>x. \<not> below p k x) L"
  define node where "node = int (length ?nd)"
  let ?L' = "?Lk @ node # ?Rk"
  from findGE_correct [OF lin inv, of k True] nex obtain pn where
    f: "findGE p k True = Some (Inr ((ge_node p L k, False), p\<lparr>prevNode := pn\<rparr>))"
    and pn: "length pn = 12" "\<forall>j. int j < maxHeight p \<longrightarrow> pn ! j = ?s (int j)"
    by auto
  from randHeight_range [of "p\<lparr>prevNode := pn\<rparr>"] obtain hn pos where
    rh: "randHeight (p\<lparr>prevNode := pn\<rparr>) = (hn, p\<lparr>prevNode := pn, rndPos := pos\<rparr>)"
    and hn: "1 \<le> hn" "hn \<le> 12" by auto
  from inv have mhp: "1 \<le> maxHeight p" "maxHeight p \<le> 12" and ndl: "16 \<le> int (length ?nd)"
    by (simp_all add: sl_inv_def layout_defs)
  from raise_prev_spec [of "maxHeight p" hn pn] mhp hn pn(1) obtain pn0 where
    rp: "raise_prev pn (maxHeight p) hn = Inr pn0" and pn0: "length pn0 = 12"
    "\<forall>j<12. pn0 ! j = (if maxHeight p \<le> int j \<and> int j < hn then 0 else pn ! j)"
    by auto
  define pq where "pq = (if hn > maxHeight p then pn0 else pn)"
  define mh' where "mh' = (if hn > maxHeight p then hn else maxHeight p)"
  define p1 where "p1 = p\<lparr>rndPos := pos, prevNode := pq, maxHeight := mh'\<rparr>"
  have pql: "length pq = 12" using pn(1) pn0(1) by (simp add: pq_def)
  have mh'b: "maxHeight p \<le> mh'" "hn \<le> mh'" "1 \<le> mh'" "mh' \<le> 12"
    using mhp hn by (simp_all add: mh'_def)
  have raise: "(if hn > maxHeight (p\<lparr>prevNode := pn, rndPos := pos\<rparr>)
        then bindE (raise_prev (prevNode (p\<lparr>prevNode := pn, rndPos := pos\<rparr>))
                      (maxHeight (p\<lparr>prevNode := pn, rndPos := pos\<rparr>)) hn)
               (\<lambda>pn'. Inr (p\<lparr>prevNode := pn, rndPos := pos\<rparr>\<lparr>prevNode := pn', maxHeight := hn\<rparr>))
        else Inr (p\<lparr>prevNode := pn, rndPos := pos\<rparr>)) = Inr p1"
    by (simp add: rp p1_def pq_def mh'_def)
  define prevs where "prevs = take (nat hn) pq"
  have lp: "length prevs = nat hn" using hn pql by (simp add: prevs_def)
  have sl: "slice pq 0 hn = Inr prevs" using hn pql by (simp add: slice_def prevs_def)
  have ib: "0 \<le> int i" "int i < 12" "int i < hn" if "i < length prevs" for i
    using that lp hn by simp_all
  have pi: "prevs ! i = ?s (int i)" if i: "i < length prevs" for i
  proof (cases "int i < maxHeight p")
    case True
    with pn(2) have "pn ! i = ?s (int i)" by simp
    moreover have "pq ! i = pn ! i"
      using True pn0(2) [rule_format, of i] ib [OF i] by (simp add: pq_def)
    ultimately show ?thesis using i by (simp add: prevs_def)
  next
    case False
    with ib(3) [OF i] have "hn > maxHeight p" by simp
    with pn0(2) [rule_format, of i] ib [OF i] False have "pq ! i = 0" by (simp add: pq_def)
    moreover have "?s (int i) = 0" using False by (intro stop_node_empty_level [OF inv]) simp
    ultimately show ?thesis using i by (simp add: prevs_def)
  qed
  define nd0 where "nd0 = ?nd @ [?off, int (length k), int (length v), hn]"
  have l0: "length nd0 = length ?nd + 4" by (simp add: nd0_def)
  have c1: "\<forall>i<length prevs. 0 \<le> slot (prevs ! i) (0 + int i)
      \<and> slot (prevs ! i) (0 + int i) < int (length nd0)"
    using stop_slot_range [OF inv ib(1,2), of _ k] pi l0 by fastforce
  have c2: "\<forall>i<length prevs. \<forall>j<length prevs. i \<noteq> j \<longrightarrow>
      slot (prevs ! i) (0 + int i) \<noteq> slot (prevs ! j) (0 + int j)"
  proof (intro allI impI)
    fix i j assume ij: "i < length prevs" "j < length prevs" "i \<noteq> j"
    from stop_slots_distinct [OF inv ib(1,2) [OF ij(1)] ib(1,2) [OF ij(2)], of k] ij pi
    show "slot (prevs ! i) (0 + int i) \<noteq> slot (prevs ! j) (0 + int j)" by simp
  qed
  from put_links_spec [OF c1 c2, of node] obtain nd' where
    run: "put_links nd0 node 0 prevs = Inr nd'" and len: "length nd' = length nd0 + length prevs"
    and old0: "\<forall>t<length nd0. nd' ! t
        = (if \<exists>i<length prevs. int t = slot (prevs ! i) (0 + int i) then node else nd0 ! t)"
    and new0: "\<forall>i<length prevs. nd' ! (length nd0 + i) = nd0 ! nat (slot (prevs ! i) (0 + int i))"
    by blast
  define p' where "p' = (kv_append (kv_append p1 k) v)
      \<lparr>nodeData := nd', kvSize := kvSize p + (int (length k) + int (length v)), db_n := db_n p + 1\<rparr>"
  have put: "Put p k v = Some (Inr p')"
  proof -
    have pf: "prevNode p1 = pq" "nodeData p1 = nodeData p" "kvData p1 = kvData p"
      "kvSize p1 = kvSize p" "db_n p1 = db_n p"
      by (simp_all add: p1_def)
    have "put_new (p\<lparr>prevNode := pn\<rparr>) k v = Inr p'"
      unfolding put_new_def rh prod.case raise bindE_simps Let_def
      by (simp add: pf sl run [unfolded nd0_def node_def] p'_def)
    then show ?thesis unfolding Put_def f by simp
  qed
  have nd: "nodeData p' = nd'" and kv: "kvData p' = kvData p @ (k @ v)" and c: "db_cmp p' = db_cmp p"
    and mh: "maxHeight p' = mh'" and ppl: "length (prevNode p') = 12"
    by (simp_all add: p'_def p1_def pql)
  have lenle: "length ?nd \<le> length nd'" using len l0 by simp
  have isslot: "(\<exists>i<length prevs. u = slot (prevs ! i) (0 + int i))
      = (\<exists>i<nat hn. u = slot (?s (int i)) (int i))" for u
    using pi lp by auto
  have slot_lt: "slot (?s (int i)) (int i) < int (length ?nd)" "0 \<le> slot (?s (int i)) (int i)"
    if "i < nat hn" for i
    using stop_slot_range [OF inv, of "int i" k] that hn by simp_all
  have old: "nd' ! nat u = (if \<exists>i<nat hn. u = slot (?s (int i)) (int i) then node else ?nd ! nat u)"
    if "0 \<le> u" "u < int (length ?nd)" for u
  proof -
    from that have lt: "nat u < length ?nd" by linarith
    then have "nat u < length nd0" using l0 by simp
    note o = old0 [rule_format, OF this]
    have n0: "nd0 ! nat u = ?nd ! nat u" using lt by (simp add: nd0_def nth_append)
    have e: "int (nat u) = u" using that by simp
    from o show ?thesis unfolding isslot e n0 .
  qed
  have newhdr: "nd' ! nat (node + t) = [?off, int (length k), int (length v), hn] ! nat t"
    if "0 \<le> t" "t < 4" for t
  proof -
    have a: "nat (node + t) < length nd0" using that l0 by (simp add: node_def)
    have e: "int (nat (node + t)) = node + t" using that by (simp add: node_def)
    have no: "\<not> (\<exists>i<nat hn. node + t = slot (?s (int i)) (int i))"
      using slot_lt(1) that by (fastforce simp: node_def)
    note o = old0 [rule_format, OF a, unfolded isslot e]
    from o no have "nd' ! nat (node + t) = nd0 ! nat (node + t)" by (simp only: if_False)
    also have "\<dots> = [?off, int (length k), int (length v), hn] ! nat t"
      using that by (simp add: nd0_def node_def nth_append nat_add_distrib)
    finally show ?thesis .
  qed
  have newslot: "nxt p' h node = ge_at p L k h" if h: "0 \<le> h" "h < hn" for h
  proof -
    from h have i: "nat h < length prevs" by (simp add: lp)
    from new0 [rule_format, OF i] pi [OF i] h
    have "nd' ! (length nd0 + nat h) = nd0 ! nat (slot (?s h) h)" by simp
    also have "\<dots> = ?nd ! nat (slot (?s h) h)"
    proof -
      from slot_lt [of "nat h"] h have "slot (?s h) h < int (length ?nd)" "0 \<le> slot (?s h) h"
        by simp_all
      then have "nat (slot (?s h) h) < length ?nd" by linarith
      then show ?thesis by (simp add: nd0_def nth_append)
    qed
    also have "\<dots> = ge_at p L k h"
      using stop_next [OF inv lin h(1), of k] h hn by (simp add: nxt_def slot_def)
    finally show ?thesis using h l0 by (simp add: nxt_def nd node_def layout_defs nat_add_distrib)
  qed
  have sp: "?s (int i) \<in> set (0 # L)" "int i < hgt p (?s (int i))" if "i < nat hn" for i
    using stop_node_props(1,2) [OF inv, of "int i" k] that hn by simp_all
  have hdr: "nd' ! nat (x + t) = ?nd ! nat (x + t)"
    if "x \<in> set (0 # L)" "0 \<le> t" "t < 4" for x t
  proof -
    have "\<not> (\<exists>i<nat hn. x + t = slot (?s (int i)) (int i))"
      using header_not_slot [OF inv that(1) sp(1) that(2,3) _ sp(2)] by fastforce
    with old [of "x + t"] header_in_range [OF inv that] show ?thesis by simp
  qed
  have kept: "hgt p' x = hgt p x" "keyLenOf p' x = keyLenOf p x" "valLenOf p' x = valLenOf p x"
    "keyOf p' x = keyOf p x" "valOf p' x = valOf p x" "node_ok p' x"
    if "x \<in> set L" for x
  proof -
    have "\<forall>t. 0 \<le> t \<and> t < 4 \<longrightarrow> nodeData p' ! nat (x + t) = nodeData p ! nat (x + t)"
      using hdr [of x] that by (simp add: nd)
    from node_kept [OF inv_node_ok [OF inv that] this kv] lenle mh'b(1)
    show "hgt p' x = hgt p x" "keyLenOf p' x = keyLenOf p x" "valLenOf p' x = valLenOf p x"
      "keyOf p' x = keyOf p x" "valOf p' x = valOf p x" "node_ok p' x"
      by (simp_all add: nd mh)
  qed
  have fn: "nodeData p' ! nat node = ?off" "keyLenOf p' node = int (length k)"
    "valLenOf p' node = int (length v)" "hgt p' node = hn"
    using newhdr [of 0] newhdr [of 1] newhdr [of 2] newhdr [of 3]
    by (simp_all add: keyLenOf_def valLenOf_def hgt_def nd layout_defs)
  have kn: "keyOf p' node = k" "valOf p' node = v"
    by (simp_all add: keyOf_def valOf_def fn kv nat_add_distrib)
  have okn: "node_ok p' node"
    unfolding node_ok_def fn
    using ndl hn mh'b len l0 lp by (simp add: nd kv mh node_def layout_defs)
  have lt_node: "x < node" if "x \<in> set (0 # L)" for x
    using header_in_range [OF inv that, of 0] by (simp add: node_def)
  then have fresh: "node \<notin> set (0 # L)" by blast
  have hgt0: "hgt p' 0 = hgt p 0" using hdr [of 0 3] by (simp add: hgt_def nd layout_defs)
  have slots: "nxt p' h x = (if h < hn \<and> x = ?s h then node else nxt p h x)"
    if x: "x \<in> set (0 # L)" and h: "0 \<le> h" "h < hgt p x" for x h
  proof -
    have "x + nNext + hgt p x \<le> int (length ?nd)"
    proof (cases "x = 0")
      case True
      with inv show ?thesis by (simp add: sl_inv_def)
    next
      case False
      with x have "x \<in> set L" by simp
      from inv_node_ok [OF inv this] show ?thesis by (simp add: node_ok_def)
    qed
    with h node_nonneg [OF inv x] have rng: "0 \<le> slot x h" "slot x h < int (length ?nd)"
      by (simp_all add: slot_def layout_defs)
    have "(\<exists>i<nat hn. slot x h = slot (?s (int i)) (int i)) = (h < hn \<and> x = ?s h)"
    proof
      assume "\<exists>i<nat hn. slot x h = slot (?s (int i)) (int i)"
      then obtain i where i: "i < nat hn" "slot x h = slot (?s (int i)) (int i)" by blast
      from slots_distinct [OF inv x sp(1) [OF i(1)] h _ sp(2) [OF i(1)] i(2)]
      have "x = ?s (int i)" "h = int i" by simp_all
      with i(1) show "h < hn \<and> x = ?s h" by simp
    next
      assume a: "h < hn \<and> x = ?s h"
      with h have "nat h < nat hn" "slot x h = slot (?s (int (nat h))) (int (nat h))" by simp_all
      then show "\<exists>i<nat hn. slot x h = slot (?s (int i)) (int i)" by blast
    qed
    with old [OF rng] show ?thesis by (simp add: nxt_def nd slot_def)
  qed
  have split: "?Lk @ ?Rk = L"
    using sorted_filter_split [OF inv_sorted [OF inv], of "below p k"] below_closed [OF lin] by blast
  have lev: "level p' ?L' h = filter (below p k) (level p L h) @ (if h < hn then [node] else [])
      @ filter (\<lambda>x. \<not> below p k x) (level p L h)" for h
  proof -
    have "level p' ?Lk h = level p ?Lk h" by (rule level_cong) (simp add: kept(1))
    moreover have "level p' ?Rk h = level p ?Rk h" by (rule level_cong) (simp add: kept(1))
    moreover have "level p' [node] h = (if h < hn then [node] else [])" by (simp add: level_def fn)
    moreover have "level p' ?L' h = level p' ?Lk h @ level p' [node] h @ level p' ?Rk h"
      by (simp add: level_def)
    ultimately show ?thesis by (simp add: level_filter)
  qed
  have dist: "distinct (0 # L)" by (rule inv_distinct [OF lin inv])
  have links: "map (nxt p' h) (0 # level p' ?L' h) = level p' ?L' h @ [0]"
    if h: "0 \<le> h" "h < 12" for h
  proof -
    let ?X = "level p L h"
    let ?A = "filter (below p k) ?X"
    let ?B = "filter (\<lambda>x. \<not> below p k x) ?X"
    have X: "?A @ ?B = ?X" using level_split(1) [OF inv lin, of k h] .
    have m: "map (nxt p h) (0 # ?A @ ?B) = ?A @ ?B @ [0]" using inv_links [OF inv h] X by simp
    have dd: "distinct (0 # ?A @ ?B)" using dist X by (simp add: level_def del: distinct_append)
    have memX: "x \<in> set (0 # L) \<and> h < hgt p x" if "x \<in> set (0 # ?A @ ?B)" for x
    proof -
      from that have "x \<in> set (0 # ?X)" by auto
      from level_mem [OF inv this h(2)] show ?thesis .
    qed
    have sA: "?s h = last (0 # ?A)" by (simp add: stop_node_def)
    have sm: "last (0 # ?A) \<in> set (0 # ?A @ ?B)" using last_in_set [of "0 # ?A"] by auto
    show ?thesis
    proof (cases "h < hn")
      case True
      have f0: "nxt p' h node = hd (?B @ [0])" using newslot [OF h(1) True] by (simp add: ge_at_def)
      have f1: "nxt p' h (last (0 # ?A)) = node"
        using slots [of "last (0 # ?A)" h] memX [OF sm] h True sA by simp
      have f2: "\<forall>x\<in>set (0 # ?A @ ?B). x \<noteq> last (0 # ?A) \<longrightarrow> nxt p' h x = nxt p h x"
      proof (intro ballI impI)
        fix x assume x: "x \<in> set (0 # ?A @ ?B)" and ne: "x \<noteq> last (0 # ?A)"
        from slots [of x h] memX [OF x] h ne sA show "nxt p' h x = nxt p h x" by simp
      qed
      from link_insert [OF m dd f0 f1 f2] True show ?thesis by (simp add: lev)
    next
      case False
      have "map (nxt p' h) (0 # ?A @ ?B) = map (nxt p h) (0 # ?A @ ?B)"
      proof (rule map_cong [OF refl])
        fix x assume "x \<in> set (0 # ?A @ ?B)"
        from slots [of x h] memX [OF this] h False show "nxt p' h x = nxt p h x" by simp
      qed
      with m False show ?thesis by (simp add: lev)
    qed
  qed
  have nokey: "keyOf p y \<noteq> k" if "y \<in> set L" for y
  proof
    assume e: "keyOf p y = k"
    then have "db_cmp p (keyOf p y) k = 0" using lin_eq [OF lin] by simp
    from ge_exact [OF inv lin that this] inv_nonzero [OF inv that] e lin_eq [OF lin, of k k] nex
    show False by (simp add: cmp_at_def)
  qed
  have sorted: "sorted_wrt (key_lt p') ?L'"
  proof -
    have old_lt: "key_lt p' x y = key_lt p x y" if "x \<in> set L" "y \<in> set L" for x y
      using kept(4) that by (simp add: key_lt_def c)
    have s0: "sorted_wrt (key_lt p) (?Lk @ ?Rk)" using inv_sorted [OF inv] split by simp
    have a: "sorted_wrt (key_lt p') ?Lk"
      by (rule sorted_wrt_mono_rel [OF _ sorted_wrt_filter [OF inv_sorted [OF inv]]])
         (simp add: old_lt)
    have b: "sorted_wrt (key_lt p') ?Rk"
      by (rule sorted_wrt_mono_rel [OF _ sorted_wrt_filter [OF inv_sorted [OF inv]]])
         (simp add: old_lt)
    have cross: "\<forall>x\<in>set ?Lk. \<forall>y\<in>set ?Rk. key_lt p' x y"
      using s0 old_lt by (simp add: sorted_wrt_append)
    have left: "\<forall>x\<in>set ?Lk. key_lt p' x node"
      using kept(4) by (simp add: key_lt_def c kn below_def)
    have right: "\<forall>y\<in>set ?Rk. key_lt p' node y"
    proof
      fix y assume "y \<in> set ?Rk"
      then have y: "y \<in> set L" "\<not> db_cmp p (keyOf p y) k < 0" by (simp_all add: below_def)
      from lin_total [OF lin nokey [OF y(1)] y(2)] kept(4) [OF y(1)]
      show "key_lt p' node y" by (simp add: key_lt_def c kn)
    qed
    from a b cross left right show ?thesis by (simp add: sorted_wrt_append)
  qed
  have reg: "\<forall>x\<in>set ?L'. \<forall>y\<in>set ?L'. x < y \<longrightarrow> x + nNext + hgt p' x \<le> y"
  proof (intro ballI impI)
    fix x y assume xy: "x \<in> set ?L'" "y \<in> set ?L'" "x < y"
    show "x + nNext + hgt p' x \<le> y"
    proof (cases "x = node")
      case True
      with xy lt_node [of y] show ?thesis by auto
    next
      case False
      with xy have xL: "x \<in> set L" by auto
      show ?thesis
      proof (cases "y = node")
        case True
        from inv_node_ok [OF inv xL] kept(1) [OF xL] show ?thesis
          by (simp add: True node_def node_ok_def)
      next
        case False
        with xy have "y \<in> set L" by auto
        with region [OF inv _ _ xy(3)] xL kept(1) [OF xL] show ?thesis by simp
      qed
    qed
  qed
  have lenL: "length L = length ?Lk + length ?Rk" using arg_cong [OF split, of length] by simp
  have sz: "kvSize p' = (\<Sum>x\<leftarrow>?L'. keyLenOf p' x + valLenOf p' x)"
  proof -
    have "(\<Sum>x\<leftarrow>?Lk. keyLenOf p' x + valLenOf p' x) = (\<Sum>x\<leftarrow>?Lk. keyLenOf p x + valLenOf p x)"
      by (rule sum_list_cong_set) (simp add: kept(2,3))
    moreover have "(\<Sum>x\<leftarrow>?Rk. keyLenOf p' x + valLenOf p' x) = (\<Sum>x\<leftarrow>?Rk. keyLenOf p x + valLenOf p x)"
      by (rule sum_list_cong_set) (simp add: kept(2,3))
    moreover have "(\<Sum>x\<leftarrow>L. keyLenOf p x + valLenOf p x)
        = (\<Sum>x\<leftarrow>?Lk. keyLenOf p x + valLenOf p x) + (\<Sum>x\<leftarrow>?Rk. keyLenOf p x + valLenOf p x)"
      using arg_cong [OF split, of "\<lambda>M. \<Sum>x\<leftarrow>M. keyLenOf p x + valLenOf p x"] by simp
    ultimately show ?thesis using inv fn by (simp add: p'_def sl_inv_def)
  qed
  have "sl_inv p' ?L'"
    unfolding sl_inv_def
  proof (intro conjI)
    show "length (prevNode p') = 12" by (rule ppl)
    show "nNext + tMaxHeight \<le> int (length (nodeData p'))" using ndl lenle by (simp add: nd layout_defs)
    show "hgt p' 0 = tMaxHeight" using hgt0 inv by (simp add: sl_inv_def)
    show "1 \<le> maxHeight p'" "maxHeight p' \<le> tMaxHeight" using mh'b by (simp_all add: mh tMaxHeight_def)
    show "\<forall>x\<in>set ?L'. node_ok p' x" using kept(6) okn by auto
    show "\<forall>x\<in>set ?L'. \<forall>y\<in>set ?L'. x < y \<longrightarrow> x + nNext + hgt p' x \<le> y" by (rule reg)
    show "sorted_wrt (key_lt p') ?L'" by (rule sorted)
    show "\<forall>h. 0 \<le> h \<and> h < tMaxHeight \<longrightarrow> map (nxt p' h) (0 # level p' ?L' h) = level p' ?L' h @ [0]"
      using links by (simp add: tMaxHeight_def)
    show "db_n p' = int (length ?L')" using inv lenL by (simp add: p'_def sl_inv_def)
    show "kvSize p' = (\<Sum>x\<leftarrow>?L'. keyLenOf p' x + valLenOf p' x)" by (rule sz)
  qed
  moreover have "\<forall>x\<in>set L. keyOf p' x = keyOf p x \<and> valOf p' x = valOf p x"
    using kept(4,5) by simp
  moreover have "rndSrc p' = rndSrc p" "growCap p' = growCap p" by (simp_all add: p'_def p1_def)
  ultimately show ?thesis using put fresh kn c by blast
qed

subsection \<open>The empty store\<close>

lemma empty_inv:
  assumes nd: "nodeData p = [a, b, c, 12] @ replicate 12 0" and pn: "length (prevNode p) = 12"
    and mh: "maxHeight p = 1" and n: "db_n p = 0" and sz: "kvSize p = 0"
  shows "sl_inv p []"
proof -
  have "nxt p h 0 = 0" if "0 \<le> h" "h < 12" for h
  proof -
    from that have "nat (4 + h) = 4 + nat h" "nat h < 12" by simp_all
    then show ?thesis by (simp add: nxt_def nd layout_defs nth_append)
  qed
  then show ?thesis
    by (simp add: sl_inv_def nd pn mh n sz level_def hgt_def layout_defs)
qed

lemma New_DB_correct:
  assumes "0 \<le> capacity"
  shows "\<exists>p. New_DB src grow c capacity = Inr p \<and> sl_inv p [] \<and> db_cmp p = c \<and> rndSrc p = src
     \<and> growCap p = grow \<and> kvCap p = capacity \<and> kvData p = []"
proof -
  have r: "replicate (nat (4 + tMaxHeight)) (0::int) = [0, 0, 0, 0] @ replicate 12 0"
    by (simp add: tMaxHeight_def numeral_eq_Suc)
  have u: "upd (replicate (nat (4 + tMaxHeight)) (0::int)) nHeight tMaxHeight
      = Inr ([0, 0, 0, 12] @ replicate 12 0)"
    unfolding r by (simp add: upd_def layout_defs)
  let ?p = "\<lparr>db_cmp = c, rndSrc = src, rndPos = 0, growCap = grow, kvData = [],
            kvCap = capacity, nodeData = [0, 0, 0, 12] @ replicate 12 0,
            prevNode = replicate (nat tMaxHeight) 0, maxHeight = 1, db_n = 0, kvSize = 0\<rparr>"
  have "New_DB src grow c capacity = Inr ?p"
    using assms by (simp add: New_DB_def u)
  moreover have "sl_inv ?p []" by (rule empty_inv) (simp_all add: tMaxHeight_def)
  ultimately show ?thesis by simp
qed

lemma reset_loop_spec:
  "0 \<le> n \<Longrightarrow> n \<le> 12 \<Longrightarrow> length nd = 16 \<Longrightarrow> length pn = 12 \<Longrightarrow>
   \<exists>nd' pn'. reset_loop nd pn n = Inr (nd', pn') \<and> length nd' = 16 \<and> length pn' = 12
     \<and> (\<forall>j<16. nd' ! j = (if 4 + n \<le> int j then 0 else nd ! j))"
proof (induction nd pn n rule: reset_loop.induct)
  case (1 nd pn n)
  show ?case
  proof (cases "n < tMaxHeight")
    case False
    with "1.prems" have "n = 12" by (simp add: tMaxHeight_def)
    with "1.prems" False show ?thesis by (subst reset_loop.simps) auto
  next
    case True
    define nd1 where "nd1 = nd[nat (nNext + n) := 0]"
    define pn1 where "pn1 = pn[nat n := 0]"
    from True have n12: "n < 12" by (simp add: tMaxHeight_def)
    have u1: "upd nd (nNext + n) 0 = Inr nd1"
      using n12 "1.prems" by (simp add: upd_def nd1_def layout_defs)
    have u2: "upd pn n 0 = Inr pn1" using n12 "1.prems" by (simp add: upd_def pn1_def)
    have b: "0 \<le> n + 1" "n + 1 \<le> 12" "length nd1 = 16" "length pn1 = 12"
      using n12 "1.prems" by (simp_all add: nd1_def pn1_def)
    from "1.IH" [OF True b] obtain nd' pn' where
      r: "reset_loop nd1 pn1 (n + 1) = Inr (nd', pn')" and l: "length nd' = 16" "length pn' = 12"
      and e: "\<forall>j<16. nd' ! j = (if 4 + (n + 1) \<le> int j then 0 else nd1 ! j)"
      by blast
    have "reset_loop nd pn n = Inr (nd', pn')"
      by (subst reset_loop.simps) (simp add: True u1 u2 r)
    moreover have "\<forall>j<16. nd' ! j = (if 4 + n \<le> int j then 0 else nd ! j)"
    proof (intro allI impI)
      fix j :: nat assume j: "j < 16"
      from e [rule_format, OF j] j "1.prems"(1,3)
      show "nd' ! j = (if 4 + n \<le> int j then 0 else nd ! j)"
        by (auto simp: nd1_def nth_list_update layout_defs)
    qed
    ultimately show ?thesis using l by blast
  qed
qed

lemma Reset_correct:
  assumes inv: "sl_inv p L"
  shows "\<exists>p'. Reset p = Inr p' \<and> sl_inv p' [] \<and> db_cmp p' = db_cmp p \<and> rndSrc p' = rndSrc p
     \<and> growCap p' = growCap p \<and> kvCap p' = kvCap p"
proof -
  from inv have l: "16 \<le> length (nodeData p)" "length (prevNode p) = 12"
    by (simp_all add: sl_inv_def layout_defs)
  define nd0 where "nd0 = take 16 (nodeData p)"
  have l0: "length nd0 = 16" using l by (simp add: nd0_def)
  define nd4 where "nd4 = nd0[0 := 0, 1 := 0, 2 := 0, 3 := 12]"
  have l4: "length nd4 = 16" by (simp add: nd4_def l0)
  have s: "slice (nodeData p) 0 (nNext + tMaxHeight) = Inr nd0"
    using l by (simp add: slice_def nd0_def layout_defs)
  have u: "bindE (upd nd0 nKV 0) (\<lambda>nd1. bindE (upd nd1 nKey 0) (\<lambda>nd2. bindE (upd nd2 nVal 0)
        (\<lambda>nd3. bindE (upd nd3 nHeight tMaxHeight) f))) = f nd4" for f :: "int list \<Rightarrow> panic + DB"
    using l0 by (simp add: upd_def layout_defs nd4_def)
  from reset_loop_spec [of 0 nd4 "prevNode p"] l4 l(2) obtain nd5 pn5 where
    r: "reset_loop nd4 (prevNode p) 0 = Inr (nd5, pn5)" and l5: "length nd5 = 16" "length pn5 = 12"
    and e: "\<forall>j<16. nd5 ! j = (if 4 + 0 \<le> int j then 0 else nd4 ! j)"
    by auto
  define p' where "p' = p\<lparr>rndPos := 0, maxHeight := 1, db_n := 0, kvSize := 0, kvData := [],
            nodeData := nd5, prevNode := pn5\<rparr>"
  have run: "Reset p = Inr p'"
    unfolding Reset_def s bindE_simps u by (simp add: r p'_def)
  have "nd5 = [0, 0, 0, 12] @ replicate 12 0"
  proof (rule nth_equalityI)
    show "length nd5 = length ([0, 0, 0, 12] @ replicate 12 0)" using l5 by simp
    fix j assume "j < length nd5"
    then have j: "j < 16" using l5 by simp
    have "nd4 ! 0 = 0" "nd4 ! 1 = 0" "nd4 ! 2 = 0" "nd4 ! 3 = 12"
      using l0 by (simp_all add: nd4_def)
    with e [rule_format, OF j] j show "nd5 ! j = ([0, 0, 0, 12] @ replicate 12 0) ! j"
      by (auto simp: nth_append nth_Cons' less_Suc_eq numeral_eq_Suc)
  qed
  then have "sl_inv p' []" by (intro empty_inv) (simp_all add: p'_def l5)
  with run show ?thesis by (auto simp: p'_def)
qed

subsection \<open>The entries of the store as an association list\<close>

lemma entries_set: "set (entries p L) = (\<lambda>x. (keyOf p x, valOf p x)) ` set L"
  by (simp add: entries_def)

lemma key_iff:
  assumes lin: "lin_cmp (db_cmp p)" and inv: "sl_inv p L" and x: "x \<in> set L"
  shows "(keyOf p x = k) = (x = ge_node p L k \<and> cmp_at p k (ge_node p L k) = 0)"
proof
  assume "keyOf p x = k"
  then have c: "db_cmp p (keyOf p x) k = 0" using lin by (simp add: lin_eq)
  from ge_exact [OF inv lin x c] have "ge_node p L k = x" .
  with c inv_nonzero [OF inv x] show "x = ge_node p L k \<and> cmp_at p k (ge_node p L k) = 0"
    by (simp add: cmp_at_def)
next
  assume a: "x = ge_node p L k \<and> cmp_at p k (ge_node p L k) = 0"
  then have "db_cmp p (keyOf p x) k = 0" by (auto simp: cmp_at_def split: if_splits)
  with lin show "keyOf p x = k" by (simp add: lin_eq)
qed

lemma sorted_wrt_irrefl_dist: "sorted_wrt R xs \<Longrightarrow> (\<And>x. \<not> R x x) \<Longrightarrow> distinct xs"
  by (induction xs) auto

lemma entries_keys_sorted:
  "sl_inv p L \<Longrightarrow> sorted_wrt (\<lambda>a b. db_cmp p a b < 0) (map fst (entries p L))"
  using inv_sorted [of p L] by (simp add: entries_def sorted_wrt_map comp_def key_lt_def [abs_def])

lemma entries_keys_distinct:
  assumes "lin_cmp (db_cmp p)" "sl_inv p L"
  shows "distinct (map fst (entries p L))"
  using entries_keys_sorted [OF assms(2)] lin_irrefl [OF assms(1)]
  by (rule sorted_wrt_irrefl_dist)

lemma opt_eqI: "(\<And>b. (x = Some b) = (y = Some b)) \<Longrightarrow> x = y"
  by (cases x; cases y) auto

lemma map_of_upd_set:
  assumes "distinct (map fst xs)" "distinct (map fst ys)"
    and "set ys = {e \<in> set xs. fst e \<noteq> k} \<union> {(k, v)}"
  shows "map_of ys = (map_of xs)(k \<mapsto> v)"
proof (rule ext, rule opt_eqI)
  fix a b
  show "(map_of ys a = Some b) = (((map_of xs)(k \<mapsto> v)) a = Some b)"
    using assms by (auto simp: map_of_eq_Some_iff)
qed

lemma map_of_del_set:
  assumes "distinct (map fst xs)" "distinct (map fst ys)"
    and "set ys = {e \<in> set xs. fst e \<noteq> k}"
  shows "map_of ys = (map_of xs)(k := None)"
proof (rule ext, rule opt_eqI)
  fix a b
  show "(map_of ys a = Some b) = (((map_of xs)(k := None)) a = Some b)"
    using assms by (auto simp: map_of_eq_Some_iff)
qed

lemma Size_entries:
  assumes inv: "sl_inv p L"
  shows "kvSize p = payload (entries p L)"
proof -
  have "(\<Sum>x\<leftarrow>L. keyLenOf p x + valLenOf p x)
      = (\<Sum>x\<leftarrow>L. int (length (keyOf p x)) + int (length (valOf p x)))"
    by (rule arg_cong [where f = sum_list], rule map_cong [OF refl])
       (simp add: key_length val_length inv_node_ok [OF inv])
  with inv show ?thesis by (simp add: sl_inv_def payload_def entries_def comp_def)
qed

lemma Len_entries: "sl_inv p L \<Longrightarrow> db_n p = int (length (entries p L))"
  by (simp add: sl_inv_def entries_def)

subsection \<open>The operations on the entries\<close>

lemma Put_correct:
  assumes lin: "lin_cmp (db_cmp p)" and inv: "sl_inv p L"
  shows "\<exists>p' L'. Put p k v = Some (Inr p') \<and> sl_inv p' L' \<and> db_cmp p' = db_cmp p
     \<and> rndSrc p' = rndSrc p \<and> growCap p' = growCap p
     \<and> set (entries p' L') = {e \<in> set (entries p L). fst e \<noteq> k} \<union> {(k, v)}"
proof (cases "cmp_at p k (ge_node p L k) = 0")
  case True
  define d where "d = ge_node p L k"
  from Put_exact_correct [OF lin inv True, of v] obtain p' where r: "Put p k v = Some (Inr p')"
    and i: "sl_inv p' L"
    and e: "\<forall>x\<in>set L. keyOf p' x = keyOf p x \<and> valOf p' x = (if x = d then v else valOf p x)"
    and f: "db_cmp p' = db_cmp p" "rndSrc p' = rndSrc p" "growCap p' = growCap p"
    unfolding d_def by blast
  have dL: "d \<in> set L" using ge_node_cases [OF inv, of k] True by (auto simp: cmp_at_def d_def)
  have K: "\<And>x. x \<in> set L \<Longrightarrow> (keyOf p x = k) = (x = d)"
    using key_iff [OF lin inv, of _ k] True by (simp add: d_def)
  have E: "set (entries p' L) = (\<lambda>x. (keyOf p x, if x = d then v else valOf p x)) ` set L"
    unfolding entries_set by (rule image_cong [OF refl]) (simp add: e)
  have kd: "keyOf p d = k" using K [OF dL] by simp
  have "{e \<in> set (entries p L). fst e \<noteq> k} \<union> {(k, v)}
      = (\<lambda>x. (keyOf p x, if x = d then v else valOf p x)) ` set L"
  proof (intro set_eqI iffI)
    fix e assume "e \<in> {e \<in> set (entries p L). fst e \<noteq> k} \<union> {(k, v)}"
    then consider "e = (k, v)"
      | x where "x \<in> set L" "e = (keyOf p x, valOf p x)" "keyOf p x \<noteq> k"
      by (auto simp: entries_set)
    then show "e \<in> (\<lambda>x. (keyOf p x, if x = d then v else valOf p x)) ` set L"
    proof cases
      case 1
      then have "e = (keyOf p d, if d = d then v else valOf p d)" using kd by simp
      with dL show ?thesis by (rule rev_image_eqI)
    next
      case 2
      with kd have "x \<noteq> d" by auto
      with 2 have "e = (keyOf p x, if x = d then v else valOf p x)" by simp
      with 2(1) show ?thesis by (rule rev_image_eqI)
    qed
  next
    fix e assume "e \<in> (\<lambda>x. (keyOf p x, if x = d then v else valOf p x)) ` set L"
    then obtain x where x: "x \<in> set L" "e = (keyOf p x, if x = d then v else valOf p x)" by blast
    show "e \<in> {e \<in> set (entries p L). fst e \<noteq> k} \<union> {(k, v)}"
    proof (cases "x = d")
      case True
      with x kd show ?thesis by simp
    next
      case False
      with K [OF x(1)] have "keyOf p x \<noteq> k" by simp
      with x False show ?thesis by (simp add: entries_set)
    qed
  qed
  with E have "set (entries p' L) = {e \<in> set (entries p L). fst e \<noteq> k} \<union> {(k, v)}" by simp
  with r i f show ?thesis by blast
next
  case False
  from Put_new_correct [OF lin inv False, of v] obtain p' node where r: "Put p k v = Some (Inr p')"
    and n: "node \<notin> set (0 # L)"
    and i: "sl_inv p' (filter (below p k) L @ node # filter (\<lambda>x. \<not> below p k x) L)"
    and kv: "keyOf p' node = k" "valOf p' node = v"
    and e: "\<forall>x\<in>set L. keyOf p' x = keyOf p x \<and> valOf p' x = valOf p x"
    and f: "db_cmp p' = db_cmp p" "rndSrc p' = rndSrc p" "growCap p' = growCap p"
    by blast
  let ?L' = "filter (below p k) L @ node # filter (\<lambda>x. \<not> below p k x) L"
  have s: "set ?L' = insert node (set L)" by auto
  have K: "\<forall>x\<in>set L. keyOf p x \<noteq> k"
    using key_iff [OF lin inv, of _ k] False by simp
  have "(\<lambda>x. (keyOf p' x, valOf p' x)) ` set L = (\<lambda>x. (keyOf p x, valOf p x)) ` set L"
    by (rule image_cong [OF refl]) (simp add: e)
  then have "set (entries p' ?L') = insert (k, v) (set (entries p L))"
    unfolding entries_set s by (simp add: kv)
  moreover have "{e \<in> set (entries p L). fst e \<noteq> k} = set (entries p L)"
    unfolding entries_set using K by fastforce
  ultimately have "set (entries p' ?L') = {e \<in> set (entries p L). fst e \<noteq> k} \<union> {(k, v)}"
    by simp
  with r i f show ?thesis by blast
qed

lemma filter_eq_single: "distinct L \<Longrightarrow> d \<in> set L \<Longrightarrow> filter (\<lambda>x. x = d) L = [d]"
  by (induction L) (auto simp: filter_empty_conv)

lemma exact_filter:
  assumes lin: "lin_cmp (db_cmp p)" and inv: "sl_inv p L"
  shows "filter (\<lambda>e. db_cmp p (fst e) k = 0) (entries p L)
       = (if cmp_at p k (ge_node p L k) = 0
          then [(keyOf p (ge_node p L k), valOf p (ge_node p L k))] else [])"
proof -
  define d where "d = ge_node p L k"
  have c: "filter (\<lambda>x. db_cmp p (keyOf p x) k = 0) L = filter (\<lambda>x. x = d \<and> cmp_at p k d = 0) L"
    by (rule filter_cong [OF refl]) (simp add: lin_eq [OF lin] key_iff [OF lin inv] d_def)
  have "filter (\<lambda>x. db_cmp p (keyOf p x) k = 0) L = (if cmp_at p k d = 0 then [d] else [])"
  proof (cases "cmp_at p k d = 0")
    case True
    have dL: "d \<in> set L" using ge_node_cases [OF inv, of k] True by (auto simp: cmp_at_def d_def)
    from inv_distinct [OF lin inv] have "distinct L" by simp
    from filter_eq_single [OF this dL] True show ?thesis unfolding c by simp
  next
    case False
    then show ?thesis unfolding c by simp
  qed
  then show ?thesis unfolding d_def by (simp add: entries_def filter_map comp_def)
qed

lemma Get_entries:
  assumes lin: "lin_cmp (db_cmp p)" and inv: "sl_inv p L"
  shows "Get p k = Some (Inr (case filter (\<lambda>e. db_cmp p (fst e) k = 0) (entries p L) of
                               [] \<Rightarrow> ([], Some ErrNotFound) | e # es \<Rightarrow> (snd e, None)))"
  by (simp add: Get_correct [OF lin inv] exact_filter [OF lin inv])

lemma Contains_entries:
  assumes lin: "lin_cmp (db_cmp p)" and inv: "sl_inv p L"
  shows "Contains p k = Some (Inr (filter (\<lambda>e. db_cmp p (fst e) k = 0) (entries p L) \<noteq> []))"
  by (simp add: Contains_correct [OF lin inv] exact_filter [OF lin inv])

lemma Find_entries:
  assumes lin: "lin_cmp (db_cmp p)" and inv: "sl_inv p L"
  shows "Find p k = Some (Inr (case filter (\<lambda>e. 0 \<le> db_cmp p (fst e) k) (entries p L) of
                               [] \<Rightarrow> (([], []), Some ErrNotFound) | e # es \<Rightarrow> (e, None)))"
proof -
  have f: "filter (\<lambda>e. 0 \<le> db_cmp p (fst e) k) (entries p L)
         = entries p (filter (\<lambda>x. \<not> below p k x) L)"
    by (simp add: entries_def filter_map comp_def below_def not_less)
  show ?thesis
  proof (cases "filter (\<lambda>x. \<not> below p k x) L")
    case Nil
    then show ?thesis unfolding f by (simp add: Find_correct [OF lin inv] ge_node_def entries_def)
  next
    case (Cons a as)
    have "a \<in> set (filter (\<lambda>x. \<not> below p k x) L)" unfolding Cons by simp
    then have "a \<noteq> 0" using inv_nonzero [OF inv, of a] by simp
    then show ?thesis
      unfolding f by (simp add: Find_correct [OF lin inv] ge_node_def entries_def Cons)
  qed
qed

lemma Delete_entries:
  assumes lin: "lin_cmp (db_cmp p)" and inv: "sl_inv p L"
  shows "\<exists>p' L'. Delete p k = Some (Inr (if filter (\<lambda>e. db_cmp p (fst e) k = 0) (entries p L) = []
                                          then Some ErrNotFound else None, p'))
     \<and> sl_inv p' L' \<and> db_cmp p' = db_cmp p \<and> rndSrc p' = rndSrc p \<and> growCap p' = growCap p
     \<and> kvCap p' = kvCap p \<and> maxHeight p' = maxHeight p
     \<and> set (entries p' L') = {e \<in> set (entries p L). fst e \<noteq> k}
     \<and> (filter (\<lambda>e. db_cmp p (fst e) k = 0) (entries p L) = [] \<longrightarrow>
          entries p' L' = entries p L \<and> kvSize p' = kvSize p \<and> db_n p' = db_n p)
     \<and> (\<forall>v. (k, v) \<in> set (entries p L) \<longrightarrow>
          kvSize p' = kvSize p - (int (length k) + int (length v)) \<and> db_n p' = db_n p - 1)"
proof -
  define d where "d = ge_node p L k"
  from Delete_correct [OF lin inv, of k] obtain p' where
    r: "Delete p k = Some (Inr (if cmp_at p k d = 0 then None else Some ErrNotFound, p'))"
    and i: "sl_inv p' (if cmp_at p k d = 0 then filter (\<lambda>x. x \<noteq> d) L else L)"
    and e: "\<forall>x\<in>set L. keyOf p' x = keyOf p x \<and> valOf p' x = valOf p x"
    and f: "db_cmp p' = db_cmp p" "rndSrc p' = rndSrc p" "growCap p' = growCap p"
      "kvCap p' = kvCap p" "maxHeight p' = maxHeight p"
    and s1: "cmp_at p k d = 0 \<longrightarrow> kvSize p' = kvSize p - (keyLenOf p d + valLenOf p d)
           \<and> db_n p' = db_n p - 1"
    and s2: "cmp_at p k d \<noteq> 0 \<longrightarrow> kvSize p' = kvSize p \<and> db_n p' = db_n p"
    unfolding d_def by blast
  define L' where "L' = (if cmp_at p k d = 0 then filter (\<lambda>x. x \<noteq> d) L else L)"
  have ef: "(filter (\<lambda>e. db_cmp p (fst e) k = 0) (entries p L) = []) = (cmp_at p k d \<noteq> 0)"
    by (simp add: exact_filter [OF lin inv] d_def)
  have K: "\<And>x. x \<in> set L \<Longrightarrow> (keyOf p x = k) = (x = d \<and> cmp_at p k d = 0)"
    using key_iff [OF lin inv, of _ k] by (simp add: d_def)
  have sub: "set L' \<subseteq> set L" by (auto simp: L'_def)
  have en: "entries p' L' = entries p L'"
    unfolding entries_def by (rule map_cong [OF refl]) (use sub e in auto)
  have sL': "set L' = {x \<in> set L. keyOf p x \<noteq> k}"
    using K by (auto simp: L'_def)
  have S: "set (entries p' L') = {e \<in> set (entries p L). fst e \<noteq> k}"
    unfolding en entries_set sL' by auto
  have N: "cmp_at p k d \<noteq> 0 \<Longrightarrow> entries p' L' = entries p L"
    unfolding en by (simp add: L'_def)
  have V: "kvSize p' = kvSize p - (int (length k) + int (length v)) \<and> db_n p' = db_n p - 1"
    if "(k, v) \<in> set (entries p L)" for v
  proof -
    from that obtain x where x: "x \<in> set L" "keyOf p x = k" "valOf p x = v"
      by (auto simp: entries_set)
    with K [OF x(1)] have xd: "x = d" "cmp_at p k d = 0" by simp_all
    from inv_node_ok [OF inv x(1)] have "node_ok p d" by (simp add: xd)
    from key_length [OF this] val_length [OF this] x xd s1 show ?thesis by simp
  qed
  from r i f S N V s2 show ?thesis
    unfolding ef L'_def [symmetric]
    by (intro exI [of _ p'] exI [of _ L']) auto
qed

subsection \<open>Sequences of operations\<close>

lemma run_ops_correct:
  assumes "lin_cmp (db_cmp p)" "sl_inv p L" "map_of (entries p L) = m"
  shows "\<exists>p' L'. run_ops p ops = Some (Inr p') \<and> sl_inv p' L' \<and> db_cmp p' = db_cmp p
     \<and> rndSrc p' = rndSrc p \<and> growCap p' = growCap p
     \<and> map_of (entries p' L') = foldl ref_op m ops"
  using assms
proof (induction ops arbitrary: p L m)
  case Nil
  then show ?case by auto
next
  case (Cons a ops)
  note lin = Cons.prems(1) and inv = Cons.prems(2)
  have "\<exists>p1 L1. apply_op p a = Some (Inr p1) \<and> sl_inv p1 L1 \<and> db_cmp p1 = db_cmp p
     \<and> rndSrc p1 = rndSrc p \<and> growCap p1 = growCap p
     \<and> map_of (entries p1 L1) = ref_op m a"
  proof (cases a)
    case (OpPut k v)
    from Put_correct [OF lin inv, of k v] obtain p1 L1 where r: "Put p k v = Some (Inr p1)"
      and i: "sl_inv p1 L1" and f: "db_cmp p1 = db_cmp p" "rndSrc p1 = rndSrc p" "growCap p1 = growCap p"
      and s: "set (entries p1 L1) = {e \<in> set (entries p L). fst e \<noteq> k} \<union> {(k, v)}" by blast
    have lin1: "lin_cmp (db_cmp p1)" using lin f by simp
    from map_of_upd_set [OF entries_keys_distinct [OF lin inv] entries_keys_distinct [OF lin1 i] s]
    have "map_of (entries p1 L1) = ref_op m a" using Cons.prems(3) OpPut by simp
    with r i f OpPut show ?thesis by auto
  next
    case (OpDelete k)
    from Delete_entries [OF lin inv, of k] obtain p1 L1 err where
      r: "Delete p k = Some (Inr (err, p1))"
      and i: "sl_inv p1 L1" and f: "db_cmp p1 = db_cmp p" "rndSrc p1 = rndSrc p" "growCap p1 = growCap p"
      and s: "set (entries p1 L1) = {e \<in> set (entries p L). fst e \<noteq> k}" by blast
    have lin1: "lin_cmp (db_cmp p1)" using lin f by simp
    from map_of_del_set [OF entries_keys_distinct [OF lin inv] entries_keys_distinct [OF lin1 i] s]
    have "map_of (entries p1 L1) = ref_op m a" using Cons.prems(3) OpDelete by simp
    with r i f OpDelete show ?thesis by auto
  next
    case OpReset
    from Reset_correct [OF inv] obtain p1 where r: "Reset p = Inr p1" and i: "sl_inv p1 []"
      and f: "db_cmp p1 = db_cmp p" "rndSrc p1 = rndSrc p" "growCap p1 = growCap p" by blast
    have "map_of (entries p1 []) = ref_op m a" using OpReset by (simp add: entries_def)
    with r i f OpReset show ?thesis by auto
  qed
  then obtain p1 L1 where r: "apply_op p a = Some (Inr p1)" and i: "sl_inv p1 L1"
    and f: "db_cmp p1 = db_cmp p" "rndSrc p1 = rndSrc p" "growCap p1 = growCap p"
    and m: "map_of (entries p1 L1) = ref_op m a" by blast
  have lin1: "lin_cmp (db_cmp p1)" using lin f by simp
  from Cons.IH [OF lin1 i m] r f show ?case by auto
qed

lemma store_after_correct:
  assumes lin: "lin_cmp c" and cap: "0 \<le> capacity"
  shows "\<exists>p L. store_after src grow c capacity ops = Some (Inr p) \<and> sl_inv p L \<and> db_cmp p = c
     \<and> map_of (entries p L) = replay ops"
proof -
  from New_DB_correct [OF cap, of src grow c] obtain p0 where
    n: "New_DB src grow c capacity = Inr p0" and i: "sl_inv p0 []" and c: "db_cmp p0 = c" by blast
  have lin0: "lin_cmp (db_cmp p0)" using lin c by simp
  have "map_of (entries p0 []) = Map.empty" by (simp add: entries_def)
  from run_ops_correct [OF lin0 i this, of ops] c n show ?thesis
    by (auto simp: store_after_def replay_def)
qed

lemma bytes_compare_eq: "(bytes_compare a b = 0) = (a = b)"
  by (induction a b rule: bytes_compare.induct) auto

lemma bytes_compare_flip: "(bytes_compare a b < 0) = (0 < bytes_compare b a)"
  by (induction a b rule: bytes_compare.induct) auto

lemma bytes_compare_cons:
  "(bytes_compare (x # xs) (y # ys) < 0) = (x < y \<or> (x = y \<and> bytes_compare xs ys < 0))"
  by auto

lemma bytes_compare_trans:
  "bytes_compare a b < 0 \<Longrightarrow> bytes_compare b d < 0 \<Longrightarrow> bytes_compare a d < 0"
proof (induction a b arbitrary: d rule: bytes_compare.induct)
  case 1
  then show ?case by simp
next
  case (2 y ys)
  then show ?case by (cases d) simp_all
next
  case (3 x xs)
  then show ?case by simp
next
  case (4 x xs y ys)
  show ?case
  proof (cases d)
    case Nil
    with "4.prems" show ?thesis by simp
  next
    case (Cons z zs)
    from "4.prems"(1) have xy: "x < y \<or> (x = y \<and> bytes_compare xs ys < 0)"
      unfolding bytes_compare_cons .
    from "4.prems"(2) have yz: "y < z \<or> (y = z \<and> bytes_compare ys zs < 0)"
      unfolding Cons bytes_compare_cons .
    show ?thesis
    proof (cases "x < z")
      case True
      then show ?thesis unfolding Cons bytes_compare_cons by simp
    next
      case False
      with xy yz have e: "x = y" "y = z" "bytes_compare xs ys < 0" "bytes_compare ys zs < 0"
        by auto
      from e(1) have n: "\<not> x < y" "\<not> y < x" by simp_all
      from "4.IH" [OF n e(3) e(4)] e show ?thesis unfolding Cons bytes_compare_cons by simp
    qed
  qed
qed

lemma bytes_compare_lin: "lin_cmp bytes_compare"
  unfolding lin_cmp_def using bytes_compare_eq bytes_compare_flip bytes_compare_trans by blast

lemma Seek_correct:
  assumes lin: "lin_cmp (db_cmp p)" and inv: "sl_inv p L"
  shows "Seek p (NewIterator None) k = Some (Inr (ge_node p L k \<noteq> 0, it_at p (ge_node p L k)))"
proof -
  from findGE_correct [OF lin inv, of k False]
  have f: "findGE p k False = Some (Inr ((ge_node p L k, cmp_at p k (ge_node p L k) = 0), p))" by simp
  have ok: "ge_node p L k \<noteq> 0 \<longrightarrow> node_ok p (ge_node p L k)"
    using ge_node_ok [OF inv] by blast
  show ?thesis
    unfolding Seek_def NewIterator_def
    by (simp add: f fill_at [OF ok] it_at_def)
qed

lemma store_sound:
  assumes lin: "lin_cmp c" and cap: "0 \<le> capacity"
  shows "\<exists>p L. store_after src grow c capacity ops = Some (Inr p) \<and> sl_inv p L \<and> db_cmp p = c
     \<and> forward_iteration p = Some (Inr (entries p L))
     \<and> sorted_wrt (\<lambda>a b. c a b < 0) (map fst (entries p L))
     \<and> distinct (map fst (entries p L))
     \<and> map_of (entries p L) = replay ops"
proof -
  from store_after_correct [OF lin cap, of src grow ops] obtain p L where
    r: "store_after src grow c capacity ops = Some (Inr p)" and i: "sl_inv p L"
    and c: "db_cmp p = c" and m: "map_of (entries p L) = replay ops" by blast
  have lin': "lin_cmp (db_cmp p)" using lin c by simp
  from r i c m forward_iteration_correct [OF i] entries_keys_sorted [OF i]
    entries_keys_distinct [OF lin' i]
  show ?thesis by auto
qed

lemma distinct_singleton: "distinct xs \<Longrightarrow> set xs = {x} \<Longrightarrow> xs = [x]"
proof (cases xs)
  case Nil
  assume "set xs = {x}"
  with Nil show ?thesis by simp
next
  case (Cons a as)
  assume d: "distinct xs" and s: "set xs = {x}"
  from s Cons have a: "a = x" by auto
  from s Cons have "set as \<subseteq> {x}" by auto
  moreover from d Cons a have "x \<notin> set as" by simp
  ultimately have "as = []" by (cases as) auto
  with Cons a show ?thesis by simp
qed

lemma graph_of_map:
  assumes "distinct (map fst kvs)"
  shows "set kvs = {(a, b). map_of kvs a = Some b}"
  using assms by (auto simp: map_of_eq_Some_iff)

lemma replay_puts:
  "distinct (map fst kvl) \<Longrightarrow>
   (replay (map (\<lambda>(k, v). OpPut k v) kvl) a = Some b) = ((a, b) \<in> set kvl)"
proof (induction kvl rule: rev_induct)
  case Nil
  then show ?case by (simp add: replay_def)
next
  case (snoc x xs)
  obtain k v where x: "x = (k, v)" by (cases x)
  from snoc.prems have d: "distinct (map fst xs)" and n: "k \<notin> fst ` set xs" by (simp_all add: x)
  from snoc.IH [OF d] have IH: "(replay (map (\<lambda>(k, v). OpPut k v) xs) a = Some b) = ((a, b) \<in> set xs)" .
  have "replay (map (\<lambda>(k, v). OpPut k v) (xs @ [x])) = (replay (map (\<lambda>(k, v). OpPut k v) xs))(k \<mapsto> v)"
    by (simp add: replay_def x)
  then show ?case using IH n by (auto simp: x image_iff)
qed

text \<open>
  Claim C1. A store is created by \<open>New_\<close> with a comparer that is a strict linear order on
  the byte strings and a capacity that is not negative, and any finite sequence of \<open>Put\<close>
  and \<open>Delete\<close> calls (and \<open>Reset\<close> calls) is applied to it. Every call returns, and
  after the sequence, so after each call of a longer one, a full forward iteration
  (\<open>NewIterator(nil)\<close>, \<open>First\<close>, then \<open>Next\<close> until it returns false) returns the pairs
  of the reference map \<open>replay ops\<close>, in which \<open>Put\<close> inserts or overwrites and \<open>Delete\<close>
  removes, each key once and the keys strictly increasing under the comparer.
\<close>

theorem forward_iteration_refines_map:
  assumes "lin_cmp c" and "0 \<le> capacity"
  shows "\<exists>p kvs. store_after src grow c capacity ops = Some (Inr p)
     \<and> forward_iteration p = Some (Inr kvs)
     \<and> sorted_wrt (\<lambda>a b. c a b < 0) (map fst kvs)
     \<and> distinct (map fst kvs)
     \<and> map_of kvs = replay ops"
  using store_sound [OF assms, of src grow ops] by blast

text \<open>The statement of C1 for the byte-wise comparer and four calls.\<close>

theorem forward_iteration_refines_map_witness:
  "\<exists>p kvs. store_after (\<lambda>i. int i) (\<lambda>c l. 2 * l) bytes_compare 0
              [OpPut [0x61] [0x31], OpPut [0x62] [0x32], OpDelete [0x61], OpPut [0x61] [0x33]]
            = Some (Inr p)
     \<and> forward_iteration p = Some (Inr kvs)
     \<and> sorted_wrt (\<lambda>a b. bytes_compare a b < 0) (map fst kvs)
     \<and> distinct (map fst kvs)
     \<and> map_of kvs = replay [OpPut [0x61] [0x31], OpPut [0x62] [0x32], OpDelete [0x61], OpPut [0x61] [0x33]]"
  by (rule forward_iteration_refines_map [OF bytes_compare_lin order_refl])

text \<open>
  Claim C5. On an empty store, \<open>Put("a","1")\<close>, \<open>Put("b","2")\<close>, \<open>Delete("a")\<close> leave a
  store with \<open>Len() = 1\<close>, where \<open>Get("a")\<close> returns \<open>ErrNotFound\<close>, \<open>Get("b")\<close> returns
  \<open>"2"\<close> and a full forward iteration yields the one pair \<open>("b","2")\<close>; for every
  comparer that is a strict linear order, every capacity that is not negative and every
  random source.
\<close>

theorem put_put_delete_scenario:
  assumes "lin_cmp c" and "0 \<le> capacity"
  shows "\<exists>p. store_after src grow c capacity
               [OpPut [0x61] [0x31], OpPut [0x62] [0x32], OpDelete [0x61]] = Some (Inr p)
     \<and> Len p = 1
     \<and> Get p [0x61] = Some (Inr ([], Some ErrNotFound))
     \<and> Get p [0x62] = Some (Inr ([0x32], None))
     \<and> forward_iteration p = Some (Inr [([0x62], [0x32])])"
proof -
  let ?ops = "[OpPut [0x61] [0x31], OpPut [0x62] [0x32], OpDelete [0x61]]"
  from store_sound [OF assms, of src grow ?ops] obtain p L where
    r: "store_after src grow c capacity ?ops = Some (Inr p)" and i: "sl_inv p L"
    and c: "db_cmp p = c" and fw: "forward_iteration p = Some (Inr (entries p L))"
    and d: "distinct (map fst (entries p L))" and m: "map_of (entries p L) = replay ?ops"
    by blast
  have lin: "lin_cmp (db_cmp p)" using assms(1) c by simp
  have "replay ?ops = (\<lambda>x. if x = [0x62] then Some [0x32] else None)"
    by (auto simp: replay_def fun_eq_iff)
  with m graph_of_map [OF d] have "set (entries p L) = {([0x62], [0x32])}"
    by (auto split: if_splits)
  moreover from d have "distinct (entries p L)" by (simp add: distinct_map)
  ultimately have e: "entries p L = [([0x62], [0x32])]" by (rule distinct_singleton [rotated])
  have ne: "c [0x62] [0x61] \<noteq> 0" using lin_eq [OF assms(1), of "[0x62]" "[0x61]"] by simp
  have eq: "c [0x62] [0x62] = 0" using lin_eq [OF assms(1), of "[0x62]" "[0x62]"] by simp
  have "Len p = 1" using Len_entries [OF i] by (simp add: Len_def e)
  moreover have "Get p [0x61] = Some (Inr ([], Some ErrNotFound))"
    using ne by (simp add: Get_entries [OF lin i] e c)
  moreover have "Get p [0x62] = Some (Inr ([0x32], None))"
    using eq by (simp add: Get_entries [OF lin i] e c)
  ultimately show ?thesis using r fw e by auto
qed

text \<open>The scenario of C5 for the byte-wise comparer.\<close>

theorem put_put_delete_scenario_witness:
  "\<exists>p. store_after (\<lambda>i. int i) (\<lambda>c l. 2 * l) bytes_compare 0
               [OpPut [0x61] [0x31], OpPut [0x62] [0x32], OpDelete [0x61]] = Some (Inr p)
     \<and> Len p = 1
     \<and> Get p [0x61] = Some (Inr ([], Some ErrNotFound))
     \<and> Get p [0x62] = Some (Inr ([0x32], None))
     \<and> forward_iteration p = Some (Inr [([0x62], [0x32])])"
  by (rule put_put_delete_scenario [OF bytes_compare_lin order_refl])

text \<open>
  Claim C6. On a fresh store, after the \<open>Put\<close>s of a list of pairs with pairwise distinct
  keys, \<open>Size()\<close> is the sum of the lengths of the keys and values of the list. In a
  store reached by any sequence of calls, \<open>Delete(k)\<close> leaves \<open>Capacity()\<close> unchanged, it
  succeeds exactly when the store holds an entry with the key \<open>k\<close>, and then \<open>Size()\<close>
  has decreased by the length of \<open>k\<close> plus the length of the value of that entry.
\<close>

theorem Size_accounts_payload:
  assumes "lin_cmp c" and "0 \<le> capacity"
  shows "(distinct (map fst kvl) \<longrightarrow>
            (\<exists>p. store_after src grow c capacity (map (\<lambda>(k, v). OpPut k v) kvl) = Some (Inr p)
               \<and> Size p = payload kvl))
     \<and> (\<exists>p kvs. store_after src grow c capacity ops = Some (Inr p)
            \<and> forward_iteration p = Some (Inr kvs) \<and> map_of kvs = replay ops
            \<and> (\<exists>e p'. Delete p k = Some (Inr (e, p')) \<and> Capacity p' = Capacity p
                  \<and> (e = None) = (k \<in> fst ` set kvs)
                  \<and> (\<forall>v. (k, v) \<in> set kvs \<longrightarrow>
                        Size p' = Size p - (int (length k) + int (length v)))))"
proof (intro conjI impI)
  assume dk: "distinct (map fst kvl)"
  let ?ops = "map (\<lambda>(k, v). OpPut k v) kvl"
  from store_sound [OF assms, of src grow ?ops] obtain p L where
    r: "store_after src grow c capacity ?ops = Some (Inr p)" and i: "sl_inv p L"
    and d: "distinct (map fst (entries p L))" and m: "map_of (entries p L) = replay ?ops"
    by blast
  have "set (entries p L) = set kvl"
    unfolding graph_of_map [OF d] m using replay_puts [OF dk] by auto
  moreover from d have "distinct (entries p L)" by (simp add: distinct_map)
  moreover from dk have "distinct kvl" by (simp add: distinct_map)
  ultimately have "payload (entries p L) = payload kvl"
    by (simp add: payload_def sum_list_distinct_conv_sum_set)
  with Size_entries [OF i] r
  show "\<exists>p. store_after src grow c capacity ?ops = Some (Inr p) \<and> Size p = payload kvl"
    by (auto simp: Size_def)
next
  from store_sound [OF assms, of src grow ops] obtain p L where
    r: "store_after src grow c capacity ops = Some (Inr p)" and i: "sl_inv p L"
    and c: "db_cmp p = c" and fw: "forward_iteration p = Some (Inr (entries p L))"
    and m: "map_of (entries p L) = replay ops"
    by blast
  have lin: "lin_cmp (db_cmp p)" using assms(1) c by simp
  from Delete_entries [OF lin i, of k] obtain p' where
    dl: "Delete p k = Some (Inr (if filter (\<lambda>e. db_cmp p (fst e) k = 0) (entries p L) = []
                                          then Some ErrNotFound else None, p'))"
    and cp: "kvCap p' = kvCap p"
    and sz: "\<forall>v. (k, v) \<in> set (entries p L) \<longrightarrow>
          kvSize p' = kvSize p - (int (length k) + int (length v)) \<and> db_n p' = db_n p - 1"
    by blast
  have "(filter (\<lambda>e. db_cmp p (fst e) k = 0) (entries p L) \<noteq> []) = (k \<in> fst ` set (entries p L))"
    by (auto simp: filter_empty_conv lin_eq [OF lin] image_iff)
  with dl cp sz r fw m
  show "\<exists>p kvs. store_after src grow c capacity ops = Some (Inr p)
            \<and> forward_iteration p = Some (Inr kvs) \<and> map_of kvs = replay ops
            \<and> (\<exists>e p'. Delete p k = Some (Inr (e, p')) \<and> Capacity p' = Capacity p
                  \<and> (e = None) = (k \<in> fst ` set kvs)
                  \<and> (\<forall>v. (k, v) \<in> set kvs \<longrightarrow>
                        Size p' = Size p - (int (length k) + int (length v))))"
    by (intro exI [of _ p] exI [of _ "entries p L"] conjI
          exI [of _ "if filter (\<lambda>e. db_cmp p (fst e) k = 0) (entries p L) = []
                     then Some ErrNotFound else None"] exI [of _ p'])
       (auto simp: Size_def Capacity_def)
qed

text \<open>The statement of C6 for the byte-wise comparer: two pairs of five bytes, and the
  deletion of an entry of three bytes.\<close>

theorem Size_accounts_payload_witness:
  "(\<exists>p. store_after (\<lambda>i. int i) (\<lambda>c l. 2 * l) bytes_compare 0
            [OpPut [0x61] [0x31], OpPut [0x62] [0x32, 0x33]] = Some (Inr p) \<and> Size p = 5)
   \<and> (\<exists>p p'. store_after (\<lambda>i. int i) (\<lambda>c l. 2 * l) bytes_compare 0
            [OpPut [0x61] [0x31, 0x32]] = Some (Inr p)
          \<and> Delete p [0x61] = Some (Inr (None, p'))
          \<and> Size p' = Size p - 3 \<and> Capacity p' = Capacity p)"
proof -
  note t = Size_accounts_payload [OF bytes_compare_lin order_refl,
      of "[([0x61], [0x31]), ([0x62], [0x32, 0x33])]" "\<lambda>i. int i" "\<lambda>c l. 2 * l"
         "[OpPut [0x61] [0x31, 0x32]]" "[0x61]"]
  from t [THEN conjunct1] have a: "\<exists>p. store_after (\<lambda>i. int i) (\<lambda>c l. 2 * l) bytes_compare 0
            [OpPut [0x61] [0x31], OpPut [0x62] [0x32, 0x33]] = Some (Inr p) \<and> Size p = 5"
    by (simp add: payload_def)
  from t [THEN conjunct2] obtain p kvs e p' where
    r: "store_after (\<lambda>i. int i) (\<lambda>c l. 2 * l) bytes_compare 0 [OpPut [0x61] [0x31, 0x32]] = Some (Inr p)"
    and m: "map_of kvs = replay [OpPut [0x61] [0x31, 0x32]]"
    and d: "Delete p [0x61] = Some (Inr (e, p'))" "Capacity p' = Capacity p"
    and e: "(e = None) = ([0x61] \<in> fst ` set kvs)"
    and s: "\<forall>v. ([0x61], v) \<in> set kvs \<longrightarrow> Size p' = Size p - (int (length [0x61::byte]) + int (length v))"
    by blast
  from m have "map_of kvs [0x61] = Some [0x31, 0x32]" by (simp add: replay_def)
  then have mem: "([0x61], [0x31, 0x32]) \<in> set kvs" by (rule map_of_SomeD)
  then have "[0x61] \<in> fst ` set kvs" by (rule rev_image_eqI) simp
  with e have "e = None" by simp
  moreover from s mem have "Size p' = Size p - 3" by fastforce
  ultimately show ?thesis using a r d by blast
qed

text \<open>
  Claim C7. In a store reached by any sequence of calls, whose entries \<open>kvs\<close> a forward
  iteration lists in increasing order of the keys: \<open>Get(k)\<close> returns \<open>ErrNotFound\<close> exactly
  when no entry has a key that compares equal to \<open>k\<close>, and the value of that entry
  otherwise; \<open>Delete(k)\<close> returns \<open>ErrNotFound\<close> under the same condition and then leaves
  \<open>Len()\<close>, \<open>Size()\<close> and the entries as they were; \<open>Find(k)\<close> returns \<open>ErrNotFound\<close>
  exactly when no entry has a key greater than or equal to \<open>k\<close>, and otherwise the
  first such entry of the increasing list, which is the smallest.
\<close>

theorem NotFound_conditions:
  assumes "lin_cmp c" and "0 \<le> capacity"
  shows "\<exists>p kvs. store_after src grow c capacity ops = Some (Inr p)
     \<and> forward_iteration p = Some (Inr kvs)
     \<and> sorted_wrt (\<lambda>a b. c a b < 0) (map fst kvs)
     \<and> distinct (map fst kvs) \<and> map_of kvs = replay ops
     \<and> Get p k = Some (Inr (case filter (\<lambda>e. c (fst e) k = 0) kvs of
                               [] \<Rightarrow> ([], Some ErrNotFound) | e # es \<Rightarrow> (snd e, None)))
     \<and> Find p k = Some (Inr (case filter (\<lambda>e. 0 \<le> c (fst e) k) kvs of
                               [] \<Rightarrow> (([], []), Some ErrNotFound) | e # es \<Rightarrow> (e, None)))
     \<and> (\<exists>p'. Delete p k = Some (Inr (if filter (\<lambda>e. c (fst e) k = 0) kvs = []
                                        then Some ErrNotFound else None, p'))
           \<and> (filter (\<lambda>e. c (fst e) k = 0) kvs = [] \<longrightarrow>
                Len p' = Len p \<and> Size p' = Size p \<and> forward_iteration p' = Some (Inr kvs)))"
proof -
  from store_sound [OF assms, of src grow ops] obtain p L where
    r: "store_after src grow c capacity ops = Some (Inr p)" and i: "sl_inv p L"
    and c: "db_cmp p = c" and fw: "forward_iteration p = Some (Inr (entries p L))"
    and s: "sorted_wrt (\<lambda>a b. c a b < 0) (map fst (entries p L))"
      "distinct (map fst (entries p L))" "map_of (entries p L) = replay ops"
    by blast
  have lin: "lin_cmp (db_cmp p)" using assms(1) c by simp
  from Delete_entries [OF lin i, of k] obtain p' L' where
    dl: "Delete p k = Some (Inr (if filter (\<lambda>e. db_cmp p (fst e) k = 0) (entries p L) = []
                                          then Some ErrNotFound else None, p'))"
    and i': "sl_inv p' L'"
    and nf: "filter (\<lambda>e. db_cmp p (fst e) k = 0) (entries p L) = [] \<longrightarrow>
          entries p' L' = entries p L \<and> kvSize p' = kvSize p \<and> db_n p' = db_n p"
    by blast
  from forward_iteration_correct [OF i'] nf
  have "filter (\<lambda>e. c (fst e) k = 0) (entries p L) = [] \<longrightarrow>
                Len p' = Len p \<and> Size p' = Size p \<and> forward_iteration p' = Some (Inr (entries p L))"
    by (auto simp: c Len_def Size_def)
  with r fw s Get_entries [OF lin i, of k] Find_entries [OF lin i, of k] dl
  show ?thesis unfolding c by blast
qed

text \<open>The statement of C7 for the byte-wise comparer and a store that holds \<open>("b","2")\<close>.\<close>

theorem NotFound_conditions_witness:
  "\<exists>p. store_after (\<lambda>i. int i) (\<lambda>c l. 2 * l) bytes_compare 0 [OpPut [0x62] [0x32]] = Some (Inr p)
     \<and> forward_iteration p = Some (Inr [([0x62], [0x32])])
     \<and> Get p [0x61] = Some (Inr ([], Some ErrNotFound))
     \<and> Find p [0x61] = Some (Inr (([0x62], [0x32]), None))
     \<and> Find p [0x63] = Some (Inr (([], []), Some ErrNotFound))
     \<and> (\<exists>p'. Delete p [0x61] = Some (Inr (Some ErrNotFound, p'))
           \<and> Len p' = Len p \<and> Size p' = Size p
           \<and> forward_iteration p' = Some (Inr [([0x62], [0x32])]))"
proof -
  let ?st = "store_after (\<lambda>i. int i) (\<lambda>c l. 2 * l) bytes_compare 0 [OpPut [0x62] [0x32]]"
  note t = NotFound_conditions [OF bytes_compare_lin order_refl,
      of "\<lambda>i. int i" "\<lambda>c l. 2 * l" "[OpPut [0x62] [0x32]]"]
  from t [of "[0x61]"] obtain p kvs p' where r: "?st = Some (Inr p)"
    and fw: "forward_iteration p = Some (Inr kvs)"
    and d: "distinct (map fst kvs)" and m: "map_of kvs = replay [OpPut [0x62] [0x32]]"
    and g: "Get p [0x61] = Some (Inr (case filter (\<lambda>e. bytes_compare (fst e) [0x61] = 0) kvs of
                               [] \<Rightarrow> ([], Some ErrNotFound) | e # es \<Rightarrow> (snd e, None)))"
    and f: "Find p [0x61] = Some (Inr (case filter (\<lambda>e. 0 \<le> bytes_compare (fst e) [0x61]) kvs of
                               [] \<Rightarrow> (([], []), Some ErrNotFound) | e # es \<Rightarrow> (e, None)))"
    and dl: "Delete p [0x61] = Some (Inr (if filter (\<lambda>e. bytes_compare (fst e) [0x61] = 0) kvs = []
                                        then Some ErrNotFound else None, p'))"
    and un: "filter (\<lambda>e. bytes_compare (fst e) [0x61] = 0) kvs = [] \<longrightarrow>
                Len p' = Len p \<and> Size p' = Size p \<and> forward_iteration p' = Some (Inr kvs)"
    by blast
  have "replay [OpPut [0x62] [0x32]] = (\<lambda>x. if x = [0x62] then Some [0x32] else None)"
    by (auto simp: replay_def fun_eq_iff)
  with m graph_of_map [OF d] have "set kvs = {([0x62], [0x32])}"
    by (auto split: if_splits)
  moreover from d have "distinct kvs" by (simp add: distinct_map)
  ultimately have kvs: "kvs = [([0x62], [0x32])]" by (rule distinct_singleton [rotated])
  from t [of "[0x63]"] r fw kvs
  have f3: "Find p [0x63] = Some (Inr (([], []), Some ErrNotFound))" by auto
  from g f dl un have "Get p [0x61] = Some (Inr ([], Some ErrNotFound))"
    "Find p [0x61] = Some (Inr (([0x62], [0x32]), None))"
    "Delete p [0x61] = Some (Inr (Some ErrNotFound, p'))"
    "Len p' = Len p \<and> Size p' = Size p \<and> forward_iteration p' = Some (Inr [([0x62], [0x32])])"
    by (simp_all add: kvs)
  with r fw f3 show ?thesis unfolding kvs by blast
qed

text \<open>
  Claim C10. In a store created by \<open>New_\<close> and reached by any sequence of \<open>Put\<close>,
  \<open>Delete\<close> and \<open>Reset\<close> calls, \<open>maxHeight\<close> lies between 1 and \<open>tMaxHeight\<close>, the height
  stored in the head node is \<open>tMaxHeight\<close>, and every node linked on the bottom level
  has a stored height between 1 and \<open>maxHeight\<close>. \<open>randHeight\<close> returns a height between
  1 and \<open>tMaxHeight\<close>. In such a store \<open>findGE\<close>, \<open>Put\<close>, \<open>Delete\<close>, \<open>Get\<close>, \<open>Find\<close>,
  \<open>Contains\<close>, \<open>Reset\<close>, and \<open>First\<close> and \<open>Seek\<close> of an iterator return without a panic:
  no index into \<open>prevNode\<close> or \<open>nodeData\<close> is out of range. The reading operations and
  the iterator return no store, so they leave the invariant as it is.
\<close>

theorem height_invariant:
  assumes "lin_cmp c" and "0 \<le> capacity"
  shows "\<exists>p. store_after src grow c capacity ops = Some (Inr p)
     \<and> 1 \<le> maxHeight p \<and> maxHeight p \<le> tMaxHeight
     \<and> ixg (nodeData p) nHeight = Inr tMaxHeight
     \<and> (\<exists>L. bottom_chain p L
           \<and> (\<forall>x\<in>set L. \<exists>h. ixg (nodeData p) (x + nHeight) = Inr h \<and> 1 \<le> h \<and> h \<le> maxHeight p))
     \<and> 1 \<le> fst (randHeight p) \<and> fst (randHeight p) \<le> tMaxHeight
     \<and> (\<exists>r. findGE p k prev = Some (Inr r))
     \<and> (\<exists>r. Put p k v = Some (Inr r))
     \<and> (\<exists>r. Delete p k = Some (Inr r))
     \<and> (\<exists>r. Get p k = Some (Inr r))
     \<and> (\<exists>r. Find p k = Some (Inr r))
     \<and> (\<exists>r. Contains p k = Some (Inr r))
     \<and> (\<exists>r. Reset p = Inr r)
     \<and> (\<exists>r. First p (NewIterator None) = Some (Inr r))
     \<and> (\<exists>r. Seek p (NewIterator None) k = Some (Inr r))"
proof -
  from store_sound [OF assms, of src grow ops] obtain p L where
    r: "store_after src grow c capacity ops = Some (Inr p)" and i: "sl_inv p L"
    and c: "db_cmp p = c"
    by blast
  have lin: "lin_cmp (db_cmp p)" using assms(1) c by simp
  have mh: "1 \<le> maxHeight p \<and> maxHeight p \<le> tMaxHeight" using i by (simp add: sl_inv_def)
  have hd: "ixg (nodeData p) nHeight = Inr tMaxHeight"
    using i by (simp add: sl_inv_def ixg_def hgt_def layout_defs)
  have "map (nxt p 0) (0 # L) = L @ [0]" using inv_links [OF i, of 0] by (simp add: level0 [OF i])
  moreover have "nxt p 0 = (\<lambda>x. nodeData p ! nat (x + nNext))" by (simp add: nxt_def fun_eq_iff)
  ultimately have bc: "bottom_chain p L"
    using inv_nonzero [OF i] by (auto simp: bottom_chain_def)
  have hs: "\<forall>x\<in>set L. \<exists>h. ixg (nodeData p) (x + nHeight) = Inr h \<and> 1 \<le> h \<and> h \<le> maxHeight p"
  proof
    fix x assume "x \<in> set L"
    from inv_node_ok [OF i this] have ok: "node_ok p x" .
    from node_fields(4) [OF ok] ok
    show "\<exists>h. ixg (nodeData p) (x + nHeight) = Inr h \<and> 1 \<le> h \<and> h \<le> maxHeight p"
      by (simp add: node_ok_def)
  qed
  from randHeight_range [of p] have rh: "1 \<le> fst (randHeight p) \<and> fst (randHeight p) \<le> tMaxHeight"
    by (auto simp: tMaxHeight_def)
  from findGE_correct [OF lin i, of k prev] have fg: "\<exists>r. findGE p k prev = Some (Inr r)" by blast
  from Put_correct [OF lin i, of k v] have pt: "\<exists>r. Put p k v = Some (Inr r)" by blast
  from Delete_entries [OF lin i, of k] have dl: "\<exists>r. Delete p k = Some (Inr r)" by blast
  from Reset_correct [OF i] have rs: "\<exists>r. Reset p = Inr r" by blast
  have ch: "\<exists>L. bottom_chain p L
           \<and> (\<forall>x\<in>set L. \<exists>h. ixg (nodeData p) (x + nHeight) = Inr h \<and> 1 \<le> h \<and> h \<le> maxHeight p)"
    using bc hs by blast
  have gt: "\<exists>r. Get p k = Some (Inr r)" using Get_entries [OF lin i, of k] by blast
  have fd: "\<exists>r. Find p k = Some (Inr r)" using Find_entries [OF lin i, of k] by blast
  have ct: "\<exists>r. Contains p k = Some (Inr r)" using Contains_entries [OF lin i, of k] by blast
  have fs: "\<exists>r. First p (NewIterator None) = Some (Inr r)" using First_correct [OF i] by blast
  have sk: "\<exists>r. Seek p (NewIterator None) k = Some (Inr r)"
    using Seek_correct [OF lin i, of k] by blast
  from r mh hd ch rh fg pt dl gt fd ct rs fs sk
  show ?thesis by - (rule exI [of _ p], blast)
qed

text \<open>The statement of C10 for the byte-wise comparer and five calls.\<close>

theorem height_invariant_witness:
  "\<exists>p. store_after (\<lambda>i. int i * 4) (\<lambda>c l. 2 * l) bytes_compare 0
          [OpPut [0x61] [0x31], OpReset, OpPut [0x62] [0x32], OpPut [0x63] [], OpDelete [0x62]]
        = Some (Inr p)
     \<and> 1 \<le> maxHeight p \<and> maxHeight p \<le> tMaxHeight
     \<and> ixg (nodeData p) nHeight = Inr tMaxHeight
     \<and> 1 \<le> fst (randHeight p) \<and> fst (randHeight p) \<le> tMaxHeight
     \<and> (\<exists>r. findGE p [0x62] True = Some (Inr r))
     \<and> (\<exists>r. Put p [0x62] [0x33] = Some (Inr r))
     \<and> (\<exists>r. Delete p [0x62] = Some (Inr r))
     \<and> (\<exists>r. Get p [0x62] = Some (Inr r))"
proof -
  from height_invariant [OF bytes_compare_lin order_refl, of "\<lambda>i. int i * 4" "\<lambda>c l. 2 * l"
      "[OpPut [0x61] [0x31], OpReset, OpPut [0x62] [0x32], OpPut [0x63] [], OpDelete [0x62]]"
      "[0x62]" True "[0x33]"]
  obtain p where "store_after (\<lambda>i. int i * 4) (\<lambda>c l. 2 * l) bytes_compare 0
          [OpPut [0x61] [0x31], OpReset, OpPut [0x62] [0x32], OpPut [0x63] [], OpDelete [0x62]]
        = Some (Inr p)"
     "1 \<le> maxHeight p \<and> maxHeight p \<le> tMaxHeight"
     "ixg (nodeData p) nHeight = Inr tMaxHeight"
     "1 \<le> fst (randHeight p) \<and> fst (randHeight p) \<le> tMaxHeight"
     "\<exists>r. findGE p [0x62] True = Some (Inr r)"
     "\<exists>r. Put p [0x62] [0x33] = Some (Inr r)"
     "\<exists>r. Delete p [0x62] = Some (Inr r)"
     "\<exists>r. Get p [0x62] = Some (Inr r)"
    by blast
  then show ?thesis by blast
qed

section \<open>Batch decoding: corruption reasons and failures\<close>

text \<open>The reasons \<open>decodeBatch\<close> gives for a corrupted record: a bad key length, a bad value
  length, and a bad tag, which is printed after the reason in hexadecimal.\<close>

definition decode_reasons :: "string set" where
  "decode_reasons =
     {''bad record: invalid key length'', ''bad record: invalid value length''}
     \<union> {''bad record: invalid type '' @ fmt_hex t | t. 1 < t \<and> t < 256}"

lemma decode_record_reason:
  assumes "decode_record data o0 = Inr (Inl r)"
  shows "r \<in> decode_reasons"
proof (cases "ixg data o0")
  case (Inl e)
  with assms show ?thesis by (simp add: decode_record_def)
next
  case (Inr t)
  show ?thesis
  proof (cases "(ucast t :: keyType) > keyTypeVal")
    case True
    with assms Inr have r: "r = ''bad record: invalid type '' @ fmt_hex (unat (ucast t :: keyType))"
      by (simp add: decode_record_def Let_def)
    have "unat (ucast t :: keyType) = unat t"
      by (simp add: unsigned_ucast_eq take_bit_nat_eq_self_iff) (use unsigned_less [of t, where 'a = nat] in simp)
    moreover have "unat t < 256"
      using unsigned_less [of t, where 'a = nat] by simp
    ultimately have "unat (ucast t :: keyType) < 256" by simp
    moreover from True have "1 < unat (ucast t :: keyType)"
      by (simp add: keyTypeVal_def word_less_nat_alt)
    ultimately show ?thesis unfolding decode_reasons_def r by blast
  next
    case False
    from assms Inr False
    have "r = ''bad record: invalid key length'' \<or> r = ''bad record: invalid value length''"
      by (simp add: decode_record_def Let_def bindE_def split: sum.splits prod.splits if_splits)
    then show ?thesis unfolding decode_reasons_def by blast
  qed
qed

lemma decodeBatch_loop_reason:
  assumes "decodeBatch_loop data fn i o0 s = Some y"
  shows "\<forall>e s'. y = Inr (Some e, s') \<longrightarrow>
           (\<exists>r\<in>decode_reasons. e = ErrBatchCorrupted r)
           \<or> (\<exists>j ix t. fn j ix t = Some (Inr (Some e, s')))"
proof (rule decodeBatch_loop.raw_induct [where P = "\<lambda>data fn i o0 s y. \<forall>e s'. y = Inr (Some e, s') \<longrightarrow>
           (\<exists>r\<in>decode_reasons. e = ErrBatchCorrupted r)
           \<or> (\<exists>j ix t. fn j ix t = Some (Inr (Some e, s')))", OF _ assms], goal_cases)
  case (1 f data fn i o0 s y)
  show ?case
  proof (intro impI allI)
    fix e s' assume y: "y = Inr (Some e, s')"
    show "(\<exists>r\<in>decode_reasons. e = ErrBatchCorrupted r)
           \<or> (\<exists>j ix t. fn j ix t = Some (Inr (Some e, s')))"
    proof (cases "o0 < int (length data)")
      case False with 1(2) y show ?thesis by simp
    next
      case True
      note body = 1(2) [simplified True if_True]
      show ?thesis
      proof (cases "decode_record data o0")
        case (Inl p) with body y show ?thesis by simp
      next
        case (Inr r)
        note body2 = body [unfolded Inr bindR_simps]
        show ?thesis
        proof (cases r)
          case (Inl reason)
          with Inr have "reason \<in> decode_reasons" by (simp add: decode_record_reason)
          moreover from body2 Inl y have "e = ErrBatchCorrupted reason"
            by (simp add: newErrBatchCorrupted_def)
          ultimately show ?thesis by blast
        next
          case (Inr q)
          obtain ix o' where q: "q = (ix, o')" by (cases q)
          note body3 = body2 [unfolded Inr q sum.case prod.case]
          show ?thesis
          proof (cases "fn i ix s")
            case None
            with body3 show ?thesis by simp
          next
            case (Some z)
            show ?thesis
            proof (cases z)
              case (Inl p)
              with body3 Some y show ?thesis by simp
            next
              case (Inr w)
              obtain er s1 where w: "w = (er, s1)" by (cases w)
              show ?thesis
              proof (cases er)
                case None
                with body3 Some Inr w have "f data fn (i + 1) o' s1 = Some y" by simp
                from 1(1) [OF this] y show ?thesis by blast
              next
                case (Some e1)
                with body3 \<open>fn i ix s = Some z\<close> Inr w y have "e1 = e" "s1 = s'" by simp_all
                with \<open>fn i ix s = Some z\<close> Inr w Some have "fn i ix s = Some (Inr (Some e, s'))" by simp
                then show ?thesis by blast
              qed
            qed
          qed
        qed
      qed
    qed
  qed
qed

lemma int64_id:
  assumes "- (2 ^ 63) \<le> v" "v < 2 ^ 63"
  shows "int64 v = v"
proof -
  have "signed_take_bit 63 v = v"
    by (rule signed_take_bit_int_eq_self) (use assms in simp_all)
  then show ?thesis by (simp add: int64_def sint_sbintrunc')
qed

lemma sint_small:
  assumes "uint (x :: 64 word) < 2 ^ 63"
  shows "sint x = uint x"
proof -
  have "- (2 ^ 63) \<le> (0::int)" by simp
  also have "0 \<le> uint x" by simp
  finally have "signed_take_bit 63 (uint x) = uint x"
    using assms by (intro signed_take_bit_int_eq_self) simp_all
  then show ?thesis by (simp add: sint_uint)
qed

lemma decode_record_bad_tag:
  assumes "0 \<le> o0" "o0 < int (length data)" "1 < data ! nat o0"
  shows "decode_record data o0 = Inr (Inl (''bad record: invalid type '' @ fmt_hex (unat (data ! nat o0))))"
proof -
  let ?t = "data ! nat o0"
  have u: "unat (ucast ?t :: keyType) = unat ?t"
    by (simp add: unsigned_ucast_eq take_bit_nat_eq_self_iff) (use unsigned_less [of ?t, where 'a = nat] in simp)
  from assms(3) have "1 < unat ?t" by (simp add: word_less_nat_alt)
  with u have "(ucast ?t :: keyType) > keyTypeVal" by (simp add: keyTypeVal_def word_less_nat_alt)
  with assms(1,2) u show ?thesis by (simp add: decode_record_def ixg_def Let_def)
qed

lemma decode_record_bad_key_length:
  assumes "0 \<le> o0" "o0 < int (length data)" "int (length data) < 2 ^ 63"
    and tag: "data ! nat o0 \<le> 1"
    and uv: "Uvarint (drop (nat (o0 + 1)) data) = (x, n)"
    and bad: "n \<le> 0 \<or> (uint x < 2 ^ 63 - (o0 + 1 + n) \<and> int (length data) < o0 + 1 + n + uint x)"
  shows "decode_record data o0 = Inr (Inl ''bad record: invalid key length'')"
proof -
  let ?t = "data ! nat o0"
  have u: "unat (ucast ?t :: keyType) = unat ?t"
    by (simp add: unsigned_ucast_eq take_bit_nat_eq_self_iff) (use unsigned_less [of ?t, where 'a = nat] in simp)
  from tag have "unat ?t \<le> 1" by (simp add: word_le_nat_alt)
  with u have kt: "\<not> (ucast ?t :: keyType) > keyTypeVal" by (simp add: keyTypeVal_def word_less_nat_alt)
  have sl: "slice data (o0 + 1) (int (length data)) = Inr (drop (nat (o0 + 1)) data)"
    using assms(1,2) by (simp add: slice_def)
  have c: "n \<le> 0 \<or> int64 (o0 + 1 + n + sint x) > int (length data)"
  proof (cases "n \<le> 0")
    case True then show ?thesis by simp
  next
    case False
    with bad have b: "uint x < 2 ^ 63 - (o0 + 1 + n)" "int (length data) < o0 + 1 + n + uint x" by auto
    from b(1) False assms(1) have "uint x < 2 ^ 63" by simp
    then have sx: "sint x = uint x" by (rule sint_small)
    have "int64 (o0 + 1 + n + uint x) = o0 + 1 + n + uint x"
      using b(1) False assms(1) uint_ge_0 [of x] by (intro int64_id) simp_all
    with b(2) sx show ?thesis by simp
  qed
  from assms(1,2) kt sl uv c show ?thesis
    by (simp add: decode_record_def ixg_def Let_def)
qed

lemma decode_record_bad_value_length:
  assumes "0 \<le> o0" "o0 < int (length data)" "int (length data) < 2 ^ 63"
    and tag: "data ! nat o0 = 1"
    and uv: "Uvarint (drop (nat (o0 + 1)) data) = (x, n)"
    and ok: "0 < n" "o0 + 1 + n + uint x \<le> int (length data)"
    and uv': "Uvarint (drop (nat (o0 + 1 + n + uint x)) data) = (x', n')"
    and bad: "n' \<le> 0 \<or> (uint x' < 2 ^ 63 - (o0 + 1 + n + uint x + n')
                \<and> int (length data) < o0 + 1 + n + uint x + n' + uint x')"
  shows "decode_record data o0 = Inr (Inl ''bad record: invalid value length'')"
proof -
  let ?t = "data ! nat o0"
  let ?o3 = "o0 + 1 + n + uint x"
  have kt: "(ucast ?t :: keyType) = keyTypeVal" by (simp add: tag keyTypeVal_def)
  have sl: "slice data (o0 + 1) (int (length data)) = Inr (drop (nat (o0 + 1)) data)"
    using assms(1,2) by (simp add: slice_def)
  from ok assms(1,3) uint_ge_0 [of x] have "uint x < 2 ^ 63" by simp
  then have sx: "sint x = uint x" by (rule sint_small)
  have i3: "int64 ?o3 = ?o3"
    using ok assms(1,3) uint_ge_0 [of x] by (intro int64_id) simp_all
  have sl': "slice data ?o3 (int (length data)) = Inr (drop (nat ?o3) data)"
    using assms(1) ok by (simp add: slice_def)
  have c: "n' \<le> 0 \<or> int64 (?o3 + n' + sint x') > int (length data)"
  proof (cases "n' \<le> 0")
    case True then show ?thesis by simp
  next
    case False
    with bad have b: "uint x' < 2 ^ 63 - (?o3 + n')" "int (length data) < ?o3 + n' + uint x'" by auto
    have p63: "(2::int) ^ 63 = 9223372036854775808" by simp
    from b(1) False assms(1) ok uint_ge_0 [of x] have "uint x' < 2 ^ 63" unfolding p63 by linarith
    then have sx': "sint x' = uint x'" by (rule sint_small)
    have "int64 (?o3 + n' + uint x') = ?o3 + n' + uint x'"
      using b(1) False assms(1) ok uint_ge_0 [of x] uint_ge_0 [of x'] unfolding p63
      by (intro int64_id; unfold p63; linarith)
    with b(2) sx' show ?thesis by simp
  qed
  from assms(1,2) kt sl uv ok sx i3 sl' uv' c show ?thesis
    by (simp add: decode_record_def ixg_def Let_def keyTypeVal_def)
qed

lemma decodeBatch_loop_reject:
  assumes "o0 < int (length data)" "decode_record data o0 = Inr (Inl r)"
  shows "decodeBatch_loop data fn i o0 s = Some (Inr (Some (ErrBatchCorrupted r), s))"
  using assms by (subst decodeBatch_loop.simps) (simp add: newErrBatchCorrupted_def)

lemma reach_loop:
  "reach data fn s0 i o1 s \<Longrightarrow> decodeBatch data fn s0 = decodeBatch_loop data fn i o1 s"
proof (induction rule: reach.induct)
  case start
  show ?case by (simp add: decodeBatch_def)
next
  case (step i o1 s index o2 s')
  have "decodeBatch_loop data fn i o1 s = decodeBatch_loop data fn (i + 1) o2 s'"
    by (subst decodeBatch_loop.simps) (simp add: step.hyps)
  with step.IH show ?case by simp
qed

lemma decodeBatch_reject:
  assumes "reach data fn s0 i o1 s" "o1 < int (length data)" "decode_record data o1 = Inr (Inl r)"
  shows "decodeBatch data fn s0 = Some (Inr (Some (ErrBatchCorrupted r), s))"
  using reach_loop [OF assms(1)] decodeBatch_loop_reject [OF assms(2,3)] by simp

lemma decodeBatch_reason:
  assumes "decodeBatch data fn s = Some (Inr (Some e, s'))"
  shows "(\<exists>r\<in>decode_reasons. e = ErrBatchCorrupted r)
           \<or> (\<exists>j ix t. fn j ix t = Some (Inr (Some e, s')))"
  using decodeBatch_loop_reason [OF assms [unfolded decodeBatch_def]] by blast

lemma decode_fn_no_error: "decode_fn j ix t \<noteq> Some (Inr (Some e, s'))"
  by (simp add: decode_fn_def)

lemma decode_reason:
  assumes "decode b d el = Some (Inr (Some e, b'))"
  shows "(\<exists>r\<in>decode_reasons. e = ErrBatchCorrupted r)
         \<or> (0 \<le> el \<and> Batch_Len b' \<noteq> el
              \<and> e = ErrBatchCorrupted (''invalid records length: '' @ fmt_dec el @ '' vs ''
                                         @ fmt_dec (Batch_Len b')))"
proof (cases "decodeBatch (fst d) decode_fn (b\<lparr>b_data := fst d, b_spare := snd d, b_index := [], internalLen := 0\<rparr>)")
  case None
  with assms show ?thesis by (simp add: decode_def)
next
  case (Some y)
  show ?thesis
  proof (cases y)
    case (Inl p)
    with Some assms show ?thesis by (simp add: decode_def)
  next
    case (Inr q)
    obtain er b1 where q: "q = (er, b1)" by (cases q)
    show ?thesis
    proof (cases er)
      case None
      with Some Inr q assms show ?thesis
        by (auto simp: decode_def newErrBatchCorrupted_def Batch_Len_def split: if_splits)
    next
      case (Some e1)
      with \<open>decodeBatch _ _ _ = Some y\<close> Inr q assms have e: "e1 = e" "y = Inr (Some e, b1)"
        by (simp_all add: decode_def)
      from decodeBatch_reason [OF \<open>decodeBatch _ _ _ = Some y\<close> [unfolded e(2)]] decode_fn_no_error
      show ?thesis by blast
    qed
  qed
qed

lemma decode_count:
  assumes "Load b d = Some (Inr (None, b'))" "0 \<le> el" "Batch_Len b' \<noteq> el"
  shows "decode b d el = Some (Inr (Some (ErrBatchCorrupted
           (''invalid records length: '' @ fmt_dec el @ '' vs '' @ fmt_dec (Batch_Len b'))), b'))"
proof -
  let ?r = "decodeBatch (fst d) decode_fn (b\<lparr>b_data := fst d, b_spare := snd d, b_index := [], internalLen := 0\<rparr>)"
  from assms(1) have "?r = Some (Inr (None, b'))"
    unfolding Load_def decode_def
    by (cases ?r) (auto simp: bindR_def split: sum.splits if_splits)
  with assms(2,3) show ?thesis
    by (simp add: decode_def newErrBatchCorrupted_def Batch_Len_def)
qed

lemma mdb_Put_no_error: "mdb_Put mdb k v \<noteq> Some (Inr (Some e, t))"
  by (cases "Put mdb k v") (auto simp: mdb_Put_def bindR_def split: sum.splits)

lemma toMem_fn_reject:
  "batchLen \<le> i \<Longrightarrow> toMem_fn data seq batchLen i ix st
     = Some (Inr (Some (ErrBatchCorrupted ''invalid records length''), st))"
  by (cases st) (simp add: toMem_fn_def newErrBatchCorrupted_def)

lemma toMem_fn_error:
  assumes "toMem_fn data seq batchLen i ix st = Some (Inr (Some e, t))"
  shows "e = ErrBatchCorrupted ''invalid records length'' \<and> batchLen \<le> i"
proof (cases "batchLen \<le> i")
  case True
  with assms toMem_fn_reject [OF True, of data seq ix st] show ?thesis by simp
next
  case False
  obtain ik mdb n where st: "st = (ik, mdb, n)" by (cases st)
  have False
  proof (cases "index_k ix data")
    case (Inl p) with assms False st show ?thesis by (simp add: toMem_fn_def)
  next
    case k: (Inr k)
    show ?thesis
    proof (cases "makeInternalKey ik k (seq + word_of_int i) (keyType ix)")
      case (Inl p) with assms False st k show ?thesis by (simp add: toMem_fn_def)
    next
      case ik': (Inr ik')
      show ?thesis
      proof (cases "index_v ix data")
        case (Inl p) with assms False st k ik' show ?thesis by (simp add: toMem_fn_def)
      next
        case v: (Inr v)
        show ?thesis
        proof (cases "mdb_Put mdb ik' v")
          case None with assms False st k ik' v show ?thesis by (simp add: toMem_fn_def)
        next
          case (Some z)
          show ?thesis
          proof (cases z)
            case (Inl p) with assms False st k ik' v Some show ?thesis by (simp add: toMem_fn_def)
          next
            case (Inr w)
            obtain er m' where w: "w = (er, m')" by (cases w)
            from mdb_Put_no_error [of mdb ik' v] Some Inr w have "er = None" by (cases er) auto
            with assms False st k ik' v Some Inr w show ?thesis by (simp add: toMem_fn_def)
          qed
        qed
      qed
    qed
  qed
  then show ?thesis ..
qed

lemma toMem_fn_ok:
  assumes "toMem_fn data seq batchLen i ix (ik, mdb, n) = Some (Inr (None, t))"
  shows "i < batchLen \<and> (\<exists>ik' mdb'. t = (ik', mdb', n + 1))"
proof (cases "batchLen \<le> i")
  case True
  with assms toMem_fn_reject [OF True, of data seq ix "(ik, mdb, n)"] show ?thesis by simp
next
  case False
  from assms False show ?thesis
    by (auto simp: toMem_fn_def bindR_def split: option.splits sum.splits if_splits prod.splits)
qed

lemma toMem_loop_count:
  assumes "decodeBatch_loop data fn i o0 st = Some y"
  shows "fn = toMem_fn data seq batchLen \<longrightarrow>
         (\<forall>ik m ik' m' n'. st = (ik, m, i) \<and> i \<le> batchLen \<and> y = Inr (None, (ik', m', n'))
             \<longrightarrow> i \<le> n' \<and> n' \<le> batchLen)"
proof (rule decodeBatch_loop.raw_induct [where P = "\<lambda>data fn i o0 st y.
         fn = toMem_fn data seq batchLen \<longrightarrow>
         (\<forall>ik m ik' m' n'. st = (ik, m, i) \<and> i \<le> batchLen \<and> y = Inr (None, (ik', m', n'))
             \<longrightarrow> i \<le> n' \<and> n' \<le> batchLen)", OF _ assms], goal_cases)
  case (1 f data fn i o0 st y)
  show ?case
  proof (intro impI allI, elim conjE)
    fix ik m ik' m' n'
    assume fn: "fn = toMem_fn data seq batchLen" and st: "st = (ik, m, i)"
      and le: "i \<le> batchLen" and y: "y = Inr (None, (ik', m', n'))"
    show "i \<le> n' \<and> n' \<le> batchLen"
    proof (cases "o0 < int (length data)")
      case False
      with 1(2) y st le show ?thesis by simp
    next
      case True
      note body = 1(2) [simplified True if_True]
      show ?thesis
      proof (cases "decode_record data o0")
        case (Inl p) with body y show ?thesis by simp
      next
        case (Inr r)
        note body2 = body [unfolded Inr bindR_simps]
        show ?thesis
        proof (cases r)
          case (Inl reason)
          with body2 y show ?thesis by simp
        next
          case (Inr q)
          obtain ix o' where q: "q = (ix, o')" by (cases q)
          note body3 = body2 [unfolded Inr q sum.case prod.case]
          show ?thesis
          proof (cases "fn i ix st")
            case None
            with body3 show ?thesis by simp
          next
            case (Some z)
            show ?thesis
            proof (cases z)
              case (Inl p)
              with body3 Some y show ?thesis by simp
            next
              case (Inr w)
              obtain er s1 where w: "w = (er, s1)" by (cases w)
              show ?thesis
              proof (cases er)
                case (Some e1)
                with body3 \<open>fn i ix st = Some z\<close> Inr w y show ?thesis by simp
              next
                case None
                with \<open>fn i ix st = Some z\<close> Inr w fn st
                have "toMem_fn data seq batchLen i ix (ik, m, i) = Some (Inr (None, s1))" by simp
                from toMem_fn_ok [OF this] obtain ik2 m2 where
                  lt: "i < batchLen" and s1: "s1 = (ik2, m2, i + 1)" by blast
                from body3 \<open>fn i ix st = Some z\<close> Inr w None
                have "f data fn (i + 1) o' s1 = Some y" by simp
                from 1(1) [OF this] fn s1 lt y have "i + 1 \<le> n' \<and> n' \<le> batchLen" by simp
                then show ?thesis by simp
              qed
            qed
          qed
        qed
      qed
    qed
  qed
qed

lemma decodeBatchHeader_short:
  "int (length data) < batchHeaderLen \<Longrightarrow>
   decodeBatchHeader data = (0, 0, Some (ErrBatchCorrupted ''too short''))"
  by (simp add: decodeBatchHeader_def newErrBatchCorrupted_def)

lemma decodeBatchHeader_long:
  "batchHeaderLen \<le> int (length data) \<Longrightarrow>
   decodeBatchHeader data = (le_uint64 data, uint (le_uint32 (drop 8 data)), None)"
  by (simp add: decodeBatchHeader_def Let_def)

lemma decodeBatchHeader_reason:
  assumes "decodeBatchHeader data = (sq, bl, Some e)"
  shows "e = ErrBatchCorrupted ''too short'' \<and> int (length data) < batchHeaderLen"
  using assms
  by (simp add: decodeBatchHeader_def Let_def newErrBatchCorrupted_def split: if_splits)

lemma decodeBatchToMem_reason:
  assumes "decodeBatchToMem data0 es mdb = Some (Inr ((sq, bl, Some e), mdb'))"
  shows "(e = ErrBatchCorrupted ''too short'' \<and> int (length data0) < batchHeaderLen)
       \<or> (\<exists>r\<in>decode_reasons. e = ErrBatchCorrupted r)
       \<or> e = ErrBatchCorrupted ''invalid records length''
       \<or> (\<exists>n. 0 \<le> n \<and> n < bl \<and> e = ErrBatchCorrupted
             (''invalid records length: '' @ fmt_dec bl @ '' vs '' @ fmt_dec n))"
proof (cases "int (length data0) < batchHeaderLen")
  case True
  with assms show ?thesis
    by (simp add: decodeBatchToMem_def decodeBatchHeader_short)
next
  case False
  then have h: "decodeBatchHeader data0 = (le_uint64 data0, uint (le_uint32 (drop 8 data0)), None)"
    by (intro decodeBatchHeader_long) simp
  define data where "data = drop 12 data0"
  have sl: "slice data0 batchHeaderLen (int (length data0)) = Inr data"
    using False by (simp add: slice_def batchHeaderLen_def data_def)
  let ?sq = "le_uint64 data0" and ?bl = "uint (le_uint32 (drop 8 data0))"
  let ?r = "decodeBatch data (toMem_fn data ?sq ?bl) ([], mdb, 0)"
  note a = assms [unfolded decodeBatchToMem_def h prod.case, simplified, unfolded sl bindR_simps]
  show ?thesis
  proof (cases ?r)
    case None
    with a show ?thesis by simp
  next
    case (Some y)
    show ?thesis
    proof (cases y)
      case (Inl p)
      with a Some show ?thesis by simp
    next
      case (Inr q)
      obtain er ik m n where q: "q = (er, ik, m, n)" by (cases q)
      show ?thesis
      proof (cases er)
        case None
        have "0 \<le> ?bl" by simp
        with toMem_loop_count [OF \<open>?r = Some y\<close> [unfolded decodeBatch_def], of ?sq ?bl] Inr q None
        have "0 \<le> n \<and> n \<le> ?bl" by simp
        with a Some Inr q None show ?thesis
          by (auto simp: newErrBatchCorrupted_def split: if_splits)
      next
        case (Some e1)
        with a \<open>?r = Some y\<close> Inr q have e: "e1 = e" by (simp split: if_splits)
        from \<open>?r = Some y\<close> Inr q Some e have "?r = Some (Inr (Some e, (ik, m, n)))" by simp
        from decodeBatch_reason [OF this] toMem_fn_error show ?thesis by blast
      qed
    qed
  qed
qed

lemma decodeBatch_toMem_reject:
  assumes "reach data (toMem_fn data seq batchLen) st0 i o1 st" "batchLen \<le> i"
    "o1 < int (length data)" "decode_record data o1 = Inr (Inr (ix, o2))"
  shows "decodeBatch data (toMem_fn data seq batchLen) st0
       = Some (Inr (Some (ErrBatchCorrupted ''invalid records length''), st))"
proof -
  have "decodeBatch_loop data (toMem_fn data seq batchLen) i o1 st
       = Some (Inr (Some (ErrBatchCorrupted ''invalid records length''), st))"
    by (subst decodeBatch_loop.simps) (simp add: assms(3,4) toMem_fn_reject [OF assms(2)])
  with reach_loop [OF assms(1)] show ?thesis by simp
qed

lemma reasons_distinct:
  "''bad record: invalid type '' @ h \<noteq> ''bad record: invalid key length''"
  "''bad record: invalid type '' @ h \<noteq> ''bad record: invalid value length''"
  "''bad record: invalid key length'' \<noteq> ''bad record: invalid value length''"
  by simp_all


lemma Uvarint_overflowing: "Uvarint [0x80,0x80,0x80,0x80,0x80,0x80,0x80,0x80,0x80,0x01] = (0x8000000000000000, 10)"
  by code_simp

lemma decode_record_overflowing:
  "decode_record [0x00,0x80,0x80,0x80,0x80,0x80,0x80,0x80,0x80,0x80,0x01] 0
   = Inr (Inr (\<lparr>keyType = 0, keyPos = 11, keyLen = - 9223372036854775808, valuePos = 0, valueLen = 0\<rparr>,
               - 9223372036854775797))"
  by code_simp

text \<open>
  Claim C4 says that \<open>decodeBatch\<close> returns or fails with \<open>BatchCorrupted\<close> on every
  input and never indexes the buffer out of bounds, also for a length that does not fit
  a non-negative \<open>int\<close>. The code does not do that: a record with the delete tag whose
  key length is the varint of \<open>2^63\<close> passes the check \<open>o+int(x) > len(data)\<close>, since
  \<open>int(x)\<close> is negative, the offset becomes negative, and the next pass of the loop
  indexes \<open>data[o]\<close> out of range. \<open>Load\<close> of these eleven bytes panics.
\<close>

theorem Load_panics_on_overflowing_key_length:
  "Load b ([0x00,0x80,0x80,0x80,0x80,0x80,0x80,0x80,0x80,0x80,0x01], sp) = Some (Inl IndexOutOfRange)"
proof -
  let ?d = "[0x00,0x80,0x80,0x80,0x80,0x80,0x80,0x80,0x80,0x80,0x01] :: bytes"
  have second: "decodeBatch_loop ?d decode_fn 1 (- 9223372036854775797) b' = Some (Inl IndexOutOfRange)" for b'
    by (subst decodeBatch_loop.simps) (simp add: decode_record_def ixg_def)
  have "decodeBatch_loop ?d decode_fn 0 0 b' = Some (Inl IndexOutOfRange)" for b'
    by (subst decodeBatch_loop.simps) (simp add: decode_record_overflowing decode_fn_def second)
  then show ?thesis
    by (simp add: Load_def decode_def decodeBatch_def)
qed

text \<open>
  Claim C8, as stated, lists the reasons of batch decoding as exactly four strings. A put
  record whose value length runs past the end of the buffer is rejected with a fifth one.
\<close>

theorem decodeBatch_reason_not_enumerated:
  "decodeBatch [0x01, 0x00, 0x05] decode_fn newBatch
     = Some (Inr (Some (ErrBatchCorrupted ''bad record: invalid value length''), newBatch))
   \<and> ''bad record: invalid value length''
       \<notin> {''bad record: invalid type'', ''bad record: invalid key length'', ''too short''}
   \<and> take 24 ''bad record: invalid value length'' \<noteq> ''invalid records length: ''"
proof -
  have "decode_record [0x01, 0x00, 0x05] 0 = Inr (Inl ''bad record: invalid value length'')"
    by code_simp
  then have "decodeBatch [0x01, 0x00, 0x05] decode_fn newBatch
     = Some (Inr (Some (ErrBatchCorrupted ''bad record: invalid value length''), newBatch))"
    unfolding decodeBatch_def by (intro decodeBatch_loop_reject) simp_all
  then show ?thesis by simp
qed

text \<open>
  Claim C8, amended. In a pass of its loop, so after it has decoded the records before
  and the callback has returned \<open>nil\<close> for each of them, \<open>decodeBatch\<close> rejects a tag byte
  above 1 with \<open>bad record: invalid type\<close> followed by the tag in hexadecimal; a key
  length that is missing, malformed or (as a length that fits the non-negative \<open>int\<close>s
  left above the offset) runs past the end of the buffer with
  \<open>bad record: invalid key length\<close>; and such a value length of a put record with
  \<open>bad record: invalid value length\<close>. The three reasons differ. An error that
  \<open>decodeBatch\<close> returns is a corruption with one of these three reasons or an error
  that its callback returned. The callback of \<open>Batch.decode\<close> returns none; the one of
  \<open>decodeBatchToMem\<close> returns \<open>invalid records length\<close> for a record whose number has
  reached the count of the header, and nothing else. \<open>Batch.decode\<close> adds
  \<open>invalid records length: X vs Y\<close>, with the expected count for X and the number of
  decoded records for Y, exactly when all records were decoded, X is not negative and
  differs from Y; \<open>decodeBatchToMem\<close> adds it with the count of the header for X. The
  header is rejected with \<open>too short\<close> exactly when the buffer has fewer than 12 bytes;
  the other failure of \<open>decodeBatchHeader\<close>, a negative count, does not occur where \<open>int\<close>
  has 64 bits.
\<close>

theorem decodeBatch_corruption_reasons:
  fixes fn1 fn2 fn3 fn4 :: "int \<Rightarrow> batchIndex \<Rightarrow> 's \<Rightarrow> (panic + error option \<times> 's) option"
  shows
    "(reach d1 fn1 z1 i1 o1 s1 \<and> 0 \<le> o1 \<and> o1 < int (length d1) \<and> 1 < d1 ! nat o1 \<longrightarrow>
        decodeBatch d1 fn1 z1
          = Some (Inr (Some (ErrBatchCorrupted
              (''bad record: invalid type '' @ fmt_hex (unat (d1 ! nat o1)))), s1)))
     \<and> (reach d2 fn2 z2 i2 o2 s2
          \<and> 0 \<le> o2 \<and> o2 < int (length d2) \<and> int (length d2) < 2 ^ 63 \<and> d2 ! nat o2 \<le> 1
          \<and> Uvarint (drop (nat (o2 + 1)) d2) = (x2, n2)
          \<and> (n2 \<le> 0 \<or> (uint x2 < 2 ^ 63 - (o2 + 1 + n2) \<and> int (length d2) < o2 + 1 + n2 + uint x2)) \<longrightarrow>
        decodeBatch d2 fn2 z2
          = Some (Inr (Some (ErrBatchCorrupted ''bad record: invalid key length''), s2)))
     \<and> (reach d3 fn3 z3 i3 o3 s3
          \<and> 0 \<le> o3 \<and> o3 < int (length d3) \<and> int (length d3) < 2 ^ 63 \<and> d3 ! nat o3 = 1
          \<and> Uvarint (drop (nat (o3 + 1)) d3) = (x3, n3)
          \<and> 0 < n3 \<and> o3 + 1 + n3 + uint x3 \<le> int (length d3)
          \<and> Uvarint (drop (nat (o3 + 1 + n3 + uint x3)) d3) = (y3, m3)
          \<and> (m3 \<le> 0 \<or> (uint y3 < 2 ^ 63 - (o3 + 1 + n3 + uint x3 + m3)
                \<and> int (length d3) < o3 + 1 + n3 + uint x3 + m3 + uint y3)) \<longrightarrow>
        decodeBatch d3 fn3 z3
          = Some (Inr (Some (ErrBatchCorrupted ''bad record: invalid value length''), s3)))
     \<and> (decodeBatch d4 fn4 s4 = Some (Inr (Some e4, t4)) \<longrightarrow>
          (\<exists>r\<in>decode_reasons. e4 = ErrBatchCorrupted r)
          \<or> (\<exists>j ix t. fn4 j ix t = Some (Inr (Some e4, t4))))
     \<and> (decode b5 d5 l5 = Some (Inr (Some e5, t5)) \<longrightarrow>
          (\<exists>r\<in>decode_reasons. e5 = ErrBatchCorrupted r)
          \<or> (0 \<le> l5 \<and> Batch_Len t5 \<noteq> l5
               \<and> e5 = ErrBatchCorrupted (''invalid records length: '' @ fmt_dec l5 @ '' vs ''
                                          @ fmt_dec (Batch_Len t5))))
     \<and> (Load b6 d6 = Some (Inr (None, t6)) \<and> 0 \<le> l6 \<and> Batch_Len t6 \<noteq> l6 \<longrightarrow>
          decode b6 d6 l6 = Some (Inr (Some (ErrBatchCorrupted
             (''invalid records length: '' @ fmt_dec l6 @ '' vs '' @ fmt_dec (Batch_Len t6))), t6)))
     \<and> (reach d7 (toMem_fn d7 sq7 bl7) z7 i7 o7 st7 \<and> bl7 \<le> i7 \<and> o7 < int (length d7)
          \<and> decode_record d7 o7 = Inr (Inr (ix7, p7)) \<longrightarrow>
          decodeBatch d7 (toMem_fn d7 sq7 bl7) z7
            = Some (Inr (Some (ErrBatchCorrupted ''invalid records length''), st7)))
     \<and> (decodeBatchToMem d8 es8 m8 = Some (Inr ((sq8, bl8, Some e8), t8)) \<longrightarrow>
          (e8 = ErrBatchCorrupted ''too short'' \<and> int (length d8) < batchHeaderLen)
          \<or> (\<exists>r\<in>decode_reasons. e8 = ErrBatchCorrupted r)
          \<or> e8 = ErrBatchCorrupted ''invalid records length''
          \<or> (\<exists>n. 0 \<le> n \<and> n < bl8 \<and> e8 = ErrBatchCorrupted
                (''invalid records length: '' @ fmt_dec bl8 @ '' vs '' @ fmt_dec n)))
     \<and> (int (length d9) < batchHeaderLen \<longrightarrow>
          decodeBatchHeader d9 = (0, 0, Some (ErrBatchCorrupted ''too short'')))
     \<and> (batchHeaderLen \<le> int (length d9) \<longrightarrow>
          (\<exists>sq bl. decodeBatchHeader d9 = (sq, bl, None) \<and> 0 \<le> bl))
     \<and> ''bad record: invalid type '' @ h \<noteq> ''bad record: invalid key length''
     \<and> ''bad record: invalid type '' @ h \<noteq> ''bad record: invalid value length''
     \<and> ''bad record: invalid key length'' \<noteq> ''bad record: invalid value length''"
proof (intro conjI impI)
  assume a: "reach d1 fn1 z1 i1 o1 s1 \<and> 0 \<le> o1 \<and> o1 < int (length d1) \<and> 1 < d1 ! nat o1"
  then have "decode_record d1 o1
      = Inr (Inl (''bad record: invalid type '' @ fmt_hex (unat (d1 ! nat o1))))"
    by (intro decode_record_bad_tag) simp_all
  with a show "decodeBatch d1 fn1 z1
          = Some (Inr (Some (ErrBatchCorrupted
              (''bad record: invalid type '' @ fmt_hex (unat (d1 ! nat o1)))), s1))"
    by (intro decodeBatch_reject [of d1 fn1 z1 i1 o1]) simp_all
next
  assume a: "reach d2 fn2 z2 i2 o2 s2
          \<and> 0 \<le> o2 \<and> o2 < int (length d2) \<and> int (length d2) < 2 ^ 63 \<and> d2 ! nat o2 \<le> 1
          \<and> Uvarint (drop (nat (o2 + 1)) d2) = (x2, n2)
          \<and> (n2 \<le> 0 \<or> (uint x2 < 2 ^ 63 - (o2 + 1 + n2) \<and> int (length d2) < o2 + 1 + n2 + uint x2))"
  then have "decode_record d2 o2 = Inr (Inl ''bad record: invalid key length'')"
    by (intro decode_record_bad_key_length [of o2 d2 x2 n2]) blast+
  with a show "decodeBatch d2 fn2 z2
          = Some (Inr (Some (ErrBatchCorrupted ''bad record: invalid key length''), s2))"
    by (intro decodeBatch_reject [of d2 fn2 z2 i2 o2]) simp_all
next
  assume a: "reach d3 fn3 z3 i3 o3 s3
          \<and> 0 \<le> o3 \<and> o3 < int (length d3) \<and> int (length d3) < 2 ^ 63 \<and> d3 ! nat o3 = 1
          \<and> Uvarint (drop (nat (o3 + 1)) d3) = (x3, n3)
          \<and> 0 < n3 \<and> o3 + 1 + n3 + uint x3 \<le> int (length d3)
          \<and> Uvarint (drop (nat (o3 + 1 + n3 + uint x3)) d3) = (y3, m3)
          \<and> (m3 \<le> 0 \<or> (uint y3 < 2 ^ 63 - (o3 + 1 + n3 + uint x3 + m3)
                \<and> int (length d3) < o3 + 1 + n3 + uint x3 + m3 + uint y3))"
  then have "decode_record d3 o3 = Inr (Inl ''bad record: invalid value length'')"
    by (intro decode_record_bad_value_length [of o3 d3 x3 n3 y3 m3]) blast+
  with a show "decodeBatch d3 fn3 z3
          = Some (Inr (Some (ErrBatchCorrupted ''bad record: invalid value length''), s3))"
    by (intro decodeBatch_reject [of d3 fn3 z3 i3 o3]) simp_all
next
  assume "decodeBatch d4 fn4 s4 = Some (Inr (Some e4, t4))"
  then show "(\<exists>r\<in>decode_reasons. e4 = ErrBatchCorrupted r)
          \<or> (\<exists>j ix t. fn4 j ix t = Some (Inr (Some e4, t4)))"
    by (rule decodeBatch_reason)
next
  assume "decode b5 d5 l5 = Some (Inr (Some e5, t5))"
  then show "(\<exists>r\<in>decode_reasons. e5 = ErrBatchCorrupted r)
          \<or> (0 \<le> l5 \<and> Batch_Len t5 \<noteq> l5
               \<and> e5 = ErrBatchCorrupted (''invalid records length: '' @ fmt_dec l5 @ '' vs ''
                                          @ fmt_dec (Batch_Len t5)))"
    by (rule decode_reason)
next
  assume "Load b6 d6 = Some (Inr (None, t6)) \<and> 0 \<le> l6 \<and> Batch_Len t6 \<noteq> l6"
  then show "decode b6 d6 l6 = Some (Inr (Some (ErrBatchCorrupted
             (''invalid records length: '' @ fmt_dec l6 @ '' vs '' @ fmt_dec (Batch_Len t6))), t6))"
    by (intro decode_count) simp_all
next
  assume "reach d7 (toMem_fn d7 sq7 bl7) z7 i7 o7 st7 \<and> bl7 \<le> i7 \<and> o7 < int (length d7)
          \<and> decode_record d7 o7 = Inr (Inr (ix7, p7))"
  then show "decodeBatch d7 (toMem_fn d7 sq7 bl7) z7
            = Some (Inr (Some (ErrBatchCorrupted ''invalid records length''), st7))"
    by (intro decodeBatch_toMem_reject [of d7 sq7 bl7 z7 i7 o7 st7 ix7 p7]) simp_all
next
  assume "decodeBatchToMem d8 es8 m8 = Some (Inr ((sq8, bl8, Some e8), t8))"
  then show "(e8 = ErrBatchCorrupted ''too short'' \<and> int (length d8) < batchHeaderLen)
          \<or> (\<exists>r\<in>decode_reasons. e8 = ErrBatchCorrupted r)
          \<or> e8 = ErrBatchCorrupted ''invalid records length''
          \<or> (\<exists>n. 0 \<le> n \<and> n < bl8 \<and> e8 = ErrBatchCorrupted
                (''invalid records length: '' @ fmt_dec bl8 @ '' vs '' @ fmt_dec n))"
    by (rule decodeBatchToMem_reason)
next
  assume "int (length d9) < batchHeaderLen"
  then show "decodeBatchHeader d9 = (0, 0, Some (ErrBatchCorrupted ''too short''))"
    by (rule decodeBatchHeader_short)
next
  assume "batchHeaderLen \<le> int (length d9)"
  then show "\<exists>sq bl. decodeBatchHeader d9 = (sq, bl, None) \<and> 0 \<le> bl"
    by (simp add: decodeBatchHeader_long)
qed simp_all

text \<open>The amended claim C8 at concrete buffers: the tag 2 behind one record, a key length 5
  and a value length 5 with no bytes behind them, two records where three are expected, a
  record where the header announces none, a header of three bytes and one of twelve.\<close>

theorem decodeBatch_corruption_reasons_witness:
  "decodeBatch [0x00, 0x01, 0x61, 0x02] decode_fn newBatch
     = Some (Inr (Some (ErrBatchCorrupted ''bad record: invalid type 0x2''),
          \<lparr>b_data = [], b_spare = [],
            b_index = [\<lparr>keyType = 0, keyPos = 2, keyLen = 1, valuePos = 0, valueLen = 0\<rparr>],
            internalLen = 9\<rparr>))
   \<and> decodeBatch [0x01, 0x05] decode_fn newBatch
     = Some (Inr (Some (ErrBatchCorrupted ''bad record: invalid key length''), newBatch))
   \<and> decodeBatch [0x01, 0x00, 0x05] decode_fn newBatch
     = Some (Inr (Some (ErrBatchCorrupted ''bad record: invalid value length''), newBatch))
   \<and> ''bad record: invalid type 0x2'' \<in> decode_reasons
   \<and> decode newBatch ([0x01, 1, 0x61, 1, 0x62, 0, 2, 3, 4], []) 3
     = Some (Inr (Some (ErrBatchCorrupted ''invalid records length: 3 vs 2''),
          \<lparr>b_data = [0x01, 1, 0x61, 1, 0x62, 0, 2, 3, 4], b_spare = [],
            b_index = [\<lparr>keyType = 1, keyPos = 2, keyLen = 1, valuePos = 4, valueLen = 1\<rparr>,
                       \<lparr>keyType = 0, keyPos = 7, keyLen = 2, valuePos = 0, valueLen = 0\<rparr>],
            internalLen = 20\<rparr>))
   \<and> (\<forall>mdb. decodeBatch [0x00, 0x00] (toMem_fn [0x00, 0x00] 7 0) ([], mdb, 0)
          = Some (Inr (Some (ErrBatchCorrupted ''invalid records length''), ([], mdb, 0))))
   \<and> decodeBatchHeader [1, 2, 3] = (0, 0, Some (ErrBatchCorrupted ''too short''))
   \<and> (\<exists>sq bl. decodeBatchHeader [1, 0, 0, 0, 0, 0, 0, 0, 2, 0, 0, 0] = (sq, bl, None))"
proof -
  let ?b1 = "\<lparr>b_data = [], b_spare = [],
            b_index = [\<lparr>keyType = 0, keyPos = 2, keyLen = 1, valuePos = 0, valueLen = 0\<rparr>],
            internalLen = 9\<rparr>"
  let ?b5 = "\<lparr>b_data = [0x01, 1, 0x61, 1, 0x62, 0, 2, 3, 4], b_spare = [],
            b_index = [\<lparr>keyType = 1, keyPos = 2, keyLen = 1, valuePos = 4, valueLen = 1\<rparr>,
                       \<lparr>keyType = 0, keyPos = 7, keyLen = 2, valuePos = 0, valueLen = 0\<rparr>],
            internalLen = 20\<rparr>"
  have r1: "decode_record [0x00, 0x01, 0x61, 0x02] 0
      = Inr (Inr (\<lparr>keyType = 0, keyPos = 2, keyLen = 1, valuePos = 0, valueLen = 0\<rparr>, 3))"
    by code_simp
  have f1: "decode_fn 0 \<lparr>keyType = 0, keyPos = 2, keyLen = 1, valuePos = 0, valueLen = 0\<rparr> newBatch
      = Some (Inr (None, ?b1))"
    by code_simp
  have "reach [0x00, 0x01, 0x61, 0x02] decode_fn newBatch (0 + 1) 3 ?b1"
    apply (rule reach.step [where ?o1.0 = 0 and s = newBatch
          and index = "\<lparr>keyType = 0, keyPos = 2, keyLen = 1, valuePos = 0, valueLen = 0\<rparr>"])
       apply (rule reach.start)
      apply simp
     apply (rule r1)
    apply (rule f1)
    done
  then have re1: "reach [0x00, 0x01, 0x61, 0x02] decode_fn newBatch 1 3 ?b1" by simp
  have h: "fmt_hex (unat ([0x00, 0x01, 0x61, 0x02 :: byte] ! nat 3)) = ''0x2''" by code_simp
  have g: "(1 :: byte) < [0x00, 0x01, 0x61, 0x02] ! nat 3" by code_simp
  have u2: "Uvarint (drop (nat (0 + 1)) [0x01, 0x05]) = (5, 1)" by code_simp
  have u3: "Uvarint (drop (nat (0 + 1)) [0x01, 0x00, 0x05]) = (0, 1)" by code_simp
  have v3: "Uvarint (drop (nat (0 + 1 + 1 + uint (0 :: 64 word))) [0x01, 0x00, 0x05]) = (5, 1)" by code_simp
  have d4: "decodeBatch [0x02] decode_fn newBatch
     = Some (Inr (Some (ErrBatchCorrupted ''bad record: invalid type 0x2''), newBatch))"
    by code_simp
  have l6: "Load newBatch ([0x01, 1, 0x61, 1, 0x62, 0, 2, 3, 4], []) = Some (Inr (None, ?b5))"
    by code_simp
  have n6: "Batch_Len ?b5 = 2" "fmt_dec 3 = ''3''" "fmt_dec 2 = ''2''" by code_simp+
  have r7: "decode_record [0x00, 0x00] 0
      = Inr (Inr (\<lparr>keyType = 0, keyPos = 2, keyLen = 0, valuePos = 0, valueLen = 0\<rparr>, 2))"
    by code_simp
  note t = decodeBatch_corruption_reasons [where ?fn1.0 = decode_fn and ?fn2.0 = decode_fn
      and ?fn3.0 = decode_fn and ?fn4.0 = decode_fn
      and ?d1.0 = "[0x00, 0x01, 0x61, 0x02]" and ?z1.0 = newBatch and ?i1.0 = 1 and ?o1.0 = 3 and ?s1.0 = ?b1
      and ?d2.0 = "[0x01, 0x05]" and ?z2.0 = newBatch and ?i2.0 = 0 and ?o2.0 = 0 and ?s2.0 = newBatch
      and ?x2.0 = 5 and ?n2.0 = 1
      and ?d3.0 = "[0x01, 0x00, 0x05]" and ?z3.0 = newBatch and ?i3.0 = 0 and ?o3.0 = 0 and ?s3.0 = newBatch
      and ?x3.0 = 0 and ?n3.0 = 1 and ?y3.0 = 5 and ?m3.0 = 1
      and ?d4.0 = "[0x02]" and ?s4.0 = newBatch and ?e4.0 = "ErrBatchCorrupted ''bad record: invalid type 0x2''"
      and ?t4.0 = newBatch
      and ?b6.0 = newBatch and ?d6.0 = "([0x01, 1, 0x61, 1, 0x62, 0, 2, 3, 4], [])" and ?l6.0 = 3
      and ?t6.0 = ?b5
      and ?d7.0 = "[0x00, 0x00]" and ?sq7.0 = 7 and ?bl7.0 = 0 and ?i7.0 = 0 and ?o7.0 = 0
      and ?ix7.0 = "\<lparr>keyType = 0, keyPos = 2, keyLen = 0, valuePos = 0, valueLen = 0\<rparr>" and ?p7.0 = 2
      and ?d9.0 = "[1, 2, 3]"]
  note t9 = decodeBatch_corruption_reasons [where ?fn1.0 = decode_fn and ?fn2.0 = decode_fn
      and ?fn3.0 = decode_fn and ?fn4.0 = decode_fn
      and ?d9.0 = "[1, 0, 0, 0, 0, 0, 0, 0, 2, 0, 0, 0]"]
  note c1 = t [THEN conjunct1]
  note c2 = t [THEN conjunct2, THEN conjunct1]
  note c3 = t [THEN conjunct2, THEN conjunct2, THEN conjunct1]
  note c4 = t [THEN conjunct2, THEN conjunct2, THEN conjunct2, THEN conjunct1]
  note c6 = t [THEN conjunct2, THEN conjunct2, THEN conjunct2, THEN conjunct2, THEN conjunct2,
      THEN conjunct1]
  note c7 = t [THEN conjunct2, THEN conjunct2, THEN conjunct2, THEN conjunct2, THEN conjunct2,
      THEN conjunct2, THEN conjunct1]
  note c9 = t [THEN conjunct2, THEN conjunct2, THEN conjunct2, THEN conjunct2, THEN conjunct2,
      THEN conjunct2, THEN conjunct2, THEN conjunct2, THEN conjunct1]
  note c10 = t9 [THEN conjunct2, THEN conjunct2, THEN conjunct2, THEN conjunct2, THEN conjunct2,
      THEN conjunct2, THEN conjunct2, THEN conjunct2, THEN conjunct2, THEN conjunct1]
  have w1: "decodeBatch [0x00, 0x01, 0x61, 0x02] decode_fn newBatch
     = Some (Inr (Some (ErrBatchCorrupted ''bad record: invalid type 0x2''), ?b1))"
    using c1 re1 g unfolding h by simp
  have w2: "decodeBatch [0x01, 0x05] decode_fn newBatch
     = Some (Inr (Some (ErrBatchCorrupted ''bad record: invalid key length''), newBatch))"
    using c2 u2 reach.start [of "[0x01, 0x05]" decode_fn newBatch] by simp
  have w3: "decodeBatch [0x01, 0x00, 0x05] decode_fn newBatch
     = Some (Inr (Some (ErrBatchCorrupted ''bad record: invalid value length''), newBatch))"
    using c3 u3 v3 reach.start [of "[0x01, 0x00, 0x05]" decode_fn newBatch] by simp
  from c4 d4 have "(\<exists>r\<in>decode_reasons. ErrBatchCorrupted ''bad record: invalid type 0x2'' = ErrBatchCorrupted r)
          \<or> (\<exists>j ix t. decode_fn j ix t
                = Some (Inr (Some (ErrBatchCorrupted ''bad record: invalid type 0x2''), newBatch)))"
    by (rule mp)
  with decode_fn_no_error have w4: "''bad record: invalid type 0x2'' \<in> decode_reasons" by auto
  have w5: "decode newBatch ([0x01, 1, 0x61, 1, 0x62, 0, 2, 3, 4], []) 3
     = Some (Inr (Some (ErrBatchCorrupted ''invalid records length: 3 vs 2''), ?b5))"
    using c6 l6 unfolding n6 by simp
  have w7: "decodeBatch [0x00, 0x00] (toMem_fn [0x00, 0x00] 7 0) ([], mdb, 0)
          = Some (Inr (Some (ErrBatchCorrupted ''invalid records length''), ([], mdb, 0)))" for mdb
    using c7 [of "([], mdb, 0)" "([], mdb, 0)"] r7
      reach.start [of "[0x00, 0x00]" "toMem_fn [0x00, 0x00] 7 0" "([], mdb, 0)"] by simp
  have w9: "decodeBatchHeader [1, 2, 3] = (0, 0, Some (ErrBatchCorrupted ''too short''))"
    using c9 by (simp add: batchHeaderLen_def)
  have w10: "\<exists>sq bl. decodeBatchHeader [1, 0, 0, 0, 0, 0, 0, 0, 2, 0, 0, 0] = (sq, bl, None)"
    using c10 by (auto simp: batchHeaderLen_def)
  from w1 w2 w3 w4 w5 w7 w9 w10 show ?thesis by (intro conjI allI)
qed

end
